theory Spec2Isabelle
  imports Main "HOL-Library.Multiset"
begin

section \<open>Data model\<close>

text \<open>
  The queued Mercurial backing store (\<^verbatim>\<open>HgQueuedBackingStore.cpp\<close>) works on
  content hashes, proxy hashes, blobs and trees. Their classes (\<^verbatim>\<open>Hash\<close>,
  \<^verbatim>\<open>HgProxyHash\<close>, \<^verbatim>\<open>Blob\<close>, \<^verbatim>\<open>Tree\<close>) are not among the sources, and the code
  treats them as opaque values that it copies and passes on, so they are opaque here too.
\<close>

type_synonym Hash = nat
type_synonym Blob = string
type_synonym Tree = string

datatype HgProxyHash = HgProxyHash nat

text \<open>
  \<^verbatim>\<open>folly::exception_wrapper\<close> and \<^verbatim>\<open>folly::Try<T>\<close>: a Try holds either an exception
  or a value.
\<close>

datatype exception_wrapper = Exception string

type_synonym 'a Try = "exception_wrapper + 'a"

text \<open>
  Modelled from the spec: \<^verbatim>\<open>ImportPriority\<close> is declared in a header that is not among
  the sources. The spec only says that requests are ordered by priority; the source names
  one value, \<^verbatim>\<open>ImportPriority::kNormal()\<close>. Priorities are integers here, a larger one
  being served first, and \<open>kNormal\<close> is the middle one.
\<close>

type_synonym ImportPriority = int

definition kNormal :: ImportPriority where
  "kNormal = 0"

text \<open>
  \<^verbatim>\<open>HgImportRequest\<close> is a tagged union of \<^verbatim>\<open>BlobImport\<close>, \<^verbatim>\<open>TreeImport\<close> and
  \<^verbatim>\<open>Prefetch\<close>, each with its payload; the request owns its priority, the promise that
  completes the caller's future, and the \<^verbatim>\<open>RequestMetricsScope\<close> that tracks it.
  A promise is identified by a number; the tracker carries the same number.
\<close>

datatype Request = BlobImport Hash | TreeImport Hash | Prefetch "Hash list"

datatype Response = BlobResponse Blob | TreeResponse Tree | PrefetchResponse

record HgImportRequest =
  request :: Request
  priority :: ImportPriority
  promise :: nat

text \<open>
  \<^verbatim>\<open>request.getRequest<T>()\<close> returns a pointer to the payload when the request holds
  variant \<^verbatim>\<open>T\<close> and a null pointer otherwise; \<^verbatim>\<open>request.isType<T>()\<close> tests the
  variant.
\<close>

fun getRequest_BlobImport :: "HgImportRequest \<Rightarrow> Hash option" where
  "getRequest_BlobImport r = (case request r of BlobImport h \<Rightarrow> Some h | _ \<Rightarrow> None)"

fun getRequest_TreeImport :: "HgImportRequest \<Rightarrow> Hash option" where
  "getRequest_TreeImport r = (case request r of TreeImport h \<Rightarrow> Some h | _ \<Rightarrow> None)"

fun getRequest_Prefetch :: "HgImportRequest \<Rightarrow> Hash list option" where
  "getRequest_Prefetch r = (case request r of Prefetch hs \<Rightarrow> Some hs | _ \<Rightarrow> None)"

fun isType_BlobImport :: "HgImportRequest \<Rightarrow> bool" where
  "isType_BlobImport r = (case request r of BlobImport _ \<Rightarrow> True | _ \<Rightarrow> False)"

fun isType_TreeImport :: "HgImportRequest \<Rightarrow> bool" where
  "isType_TreeImport r = (case request r of TreeImport _ \<Rightarrow> True | _ \<Rightarrow> False)"

fun isType_Prefetch :: "HgImportRequest \<Rightarrow> bool" where
  "isType_Prefetch r = (case request r of Prefetch _ \<Rightarrow> True | _ \<Rightarrow> False)"

text \<open>
  The ways in which the process stops instead of returning: a failed \<^verbatim>\<open>XCHECK_EQ\<close>,
  \<^verbatim>\<open>EDEN_BUG\<close>, and the two undefined behaviours the code can run into, following a
  null pointer returned by \<^verbatim>\<open>getRequest\<close> and reading a vector past its end.
\<close>

datatype Abort = XCheckFailed | EdenBug string | NullDereference | OutOfBounds

text \<open>
  What a run does to the outside, in order: the calls it makes to the stores and every
  completion of a request's promise (\<^verbatim>\<open>setValue\<close>, \<^verbatim>\<open>setException\<close>, \<^verbatim>\<open>setTry\<close>,
  \<^verbatim>\<open>setWith\<close>), with the request that owns the promise and the Try it receives.
\<close>

datatype Event =
    Call_getBatch "Hash list"
  | Call_HgProxyHash Hash
  | Call_getBlobLocal Hash HgProxyHash
  | Call_getBlobFromHgCache Hash HgProxyHash
  | Call_fetchBlobFromHgImporter HgProxyHash
  | Call_getTree Hash
  | Call_prefetchBlobs "Hash list"
  | Stats_addValue
  | PromiseSet HgImportRequest "Response Try"
  | Dequeued "HgImportRequest list"

text \<open>
  The two enumerations of the metrics interface, \<^verbatim>\<open>RequestMetricsScope::RequestStage\<close>
  and \<^verbatim>\<open>HgBackingStore::HgImportObject\<close>. A C++ enumeration object can hold a value of
  its underlying type that is none of its enumerators; the last constructor of each type
  stands for such values, the ones the \<^verbatim>\<open>switch\<close> statements fall through on.
\<close>

datatype RequestStage = PENDING | LIVE | RequestStage_other nat

datatype HgImportObject = BLOB | TREE | PREFETCH | HgImportObject_other nat

text \<open>
  A \<^verbatim>\<open>LockedRequestWatchList\<close> is the list of the watches registered in it; a watch
  is identified by a number.
\<close>

type_synonym RequestWatchList = "nat list"

text \<open>
  The collaborators whose code is not among the sources are parameters: the batched
  proxy-hash lookup \<^verbatim>\<open>HgProxyHash::getBatch\<close> (its future, once waited for, is a Try of
  a vector), the \<^verbatim>\<open>HgProxyHash\<close> constructor, and the methods of \<^verbatim>\<open>HgBackingStore\<close>
  and its data-pack store. A method that returns a future is a function into a Try, one
  that returns a possibly null \<^verbatim>\<open>unique_ptr\<close> a function into an option, one that
  returns an object or a reference a function into its values. The answers do not depend
  on when the call is made.
\<close>

record Stores =
  HgProxyHash_getBatch :: "Hash list \<Rightarrow> (HgProxyHash list) Try"
  HgProxyHash_new :: "Hash \<Rightarrow> HgProxyHash"
  getBlobFromHgCache :: "Hash \<Rightarrow> HgProxyHash \<Rightarrow> Blob option"
  fetchBlobFromHgImporter :: "HgProxyHash \<Rightarrow> Blob Try"
  getBlobLocal :: "Hash \<Rightarrow> HgProxyHash \<Rightarrow> Blob option"
  backingStore_getTree :: "Hash \<Rightarrow> Tree Try"
  backingStore_prefetchBlobs :: "Hash list \<Rightarrow> unit Try"
  getLiveImportWatches :: "HgImportObject \<Rightarrow> RequestWatchList"

section \<open>Blob batch processing\<close>

text \<open>
  The first loop of \<^verbatim>\<open>processBlobImportRequests\<close> collects the hash of every request
  through \<^verbatim>\<open>getRequest<BlobImport>()->hash\<close>.
\<close>

fun collectHashes :: "HgImportRequest list \<Rightarrow> Abort + Hash list" where
  "collectHashes [] = Inr []"
| "collectHashes (r # rs) =
     (case getRequest_BlobImport r of
        None \<Rightarrow> Inl NullDereference
      | Some h \<Rightarrow> (case collectHashes rs of Inl a \<Rightarrow> Inl a | Inr hs \<Rightarrow> Inr (h # hs)))"

text \<open>
  \<^verbatim>\<open>std::swap(*it, v.back()); v.pop_back();\<close> at position \<open>i\<close> of a vector.
\<close>

definition swap_pop :: "nat \<Rightarrow> 'a list \<Rightarrow> 'a list" where
  "swap_pop i xs = butlast (xs[i := last xs])"

text \<open>
  The state of the hgcache loop: the two vectors, the common offset of the iterators
  \<^verbatim>\<open>request\<close> and \<^verbatim>\<open>proxyHash\<close> (both start at \<^verbatim>\<open>begin()\<close> and are only ever
  incremented together), and the hit counter \<^verbatim>\<open>count\<close> (named \<open>hitCount\<close> here).
\<close>

record CacheLoop =
  requests :: "HgImportRequest list"
  proxyHashes :: "HgProxyHash list"
  pos :: nat
  hitCount :: nat

text \<open>
  One iteration of the loop body, entered when \<^verbatim>\<open>request != requests.end()\<close>. It
  returns the events of the iteration and the next state.
\<close>

definition hgcacheStep :: "Stores \<Rightarrow> CacheLoop \<Rightarrow> Abort + (Event list \<times> CacheLoop)" where
  "hgcacheStep st s =
     (let r = requests s ! pos s in
      case getRequest_BlobImport r of
        None \<Rightarrow> Inl NullDereference
      | Some hash \<Rightarrow>
          if length (proxyHashes s) \<le> pos s then Inl OutOfBounds
          else
            (let p = proxyHashes s ! pos s in
             case getBlobFromHgCache st hash p of
               Some blob \<Rightarrow>
                 Inr ([Call_getBlobFromHgCache hash p,
                       PromiseSet r (Inr (BlobResponse blob)),
                       Stats_addValue],
                      s\<lparr>requests := swap_pop (pos s) (requests s),
                        proxyHashes := swap_pop (pos s) (proxyHashes s),
                        hitCount := hitCount s + 1\<rparr>)
             | None \<Rightarrow>
                 Inr ([Call_getBlobFromHgCache hash p], s\<lparr>pos := pos s + 1\<rparr>)))"

function hgcacheLoop :: "Stores \<Rightarrow> CacheLoop \<Rightarrow> Abort + (Event list \<times> CacheLoop)" where
  "hgcacheLoop st s =
     (if pos s < length (requests s) then
        (case hgcacheStep st s of
           Inl a \<Rightarrow> Inl a
         | Inr (evs, s') \<Rightarrow>
             (case hgcacheLoop st s' of
                Inl a \<Rightarrow> Inl a
              | Inr (evs', s'') \<Rightarrow> Inr (evs @ evs', s'')))
      else Inr ([], s))"
  by pat_completeness auto
termination
  by (relation "measure (\<lambda>(st, s). length (requests s) - pos s)")
     (auto simp: hgcacheStep_def swap_pop_def Let_def split: option.splits if_splits)

declare hgcacheLoop.simps [simp del]

text \<open>
  The second loop calls \<^verbatim>\<open>fetchBlobFromHgImporter(*proxyHash)\<close> for every remaining
  request, advancing both iterators until \<^verbatim>\<open>request == requests.end()\<close>, and attaches
  to each future a callback that owns the request. The result is the vector of futures:
  each request with the Try its callback will be given.
\<close>

fun fetchLoop :: "Stores \<Rightarrow> HgImportRequest list \<Rightarrow> HgProxyHash list
    \<Rightarrow> Abort + (Event list \<times> (HgImportRequest \<times> Blob Try) list)" where
  "fetchLoop st [] ps = Inr ([], [])"
| "fetchLoop st (r # rs) [] = Inl OutOfBounds"
| "fetchLoop st (r # rs) (p # ps) =
     (case fetchLoop st rs ps of
        Inl a \<Rightarrow> Inl a
      | Inr (evs, futures) \<Rightarrow>
          Inr (Call_fetchBlobFromHgImporter p # evs,
               (r, fetchBlobFromHgImporter st p) # futures))"

text \<open>
  The deferred callback reads the request's hash for the log line, records the timing and
  completes the promise with the Try it was given (\<^verbatim>\<open>setTry\<close>).
\<close>

fun deferred :: "HgImportRequest \<times> Blob Try \<Rightarrow> Abort + Event list" where
  "deferred (r, result) =
     (case getRequest_BlobImport r of
        None \<Rightarrow> Inl NullDereference
      | Some hash \<Rightarrow>
          Inr [Stats_addValue,
               PromiseSet r (case result of Inl e \<Rightarrow> Inl e | Inr b \<Rightarrow> Inr (BlobResponse b))])"

text \<open>
  \<^verbatim>\<open>folly::collectAll(futures).wait()\<close> runs every callback once. The source does not
  fix the order in which the fetches complete; the model runs the callbacks in the order
  of the vector.
\<close>

fun collectAll :: "(HgImportRequest \<times> Blob Try) list \<Rightarrow> Abort + Event list" where
  "collectAll [] = Inr []"
| "collectAll (f # fs) =
     (case deferred f of
        Inl a \<Rightarrow> Inl a
      | Inr evs \<Rightarrow> (case collectAll fs of Inl a \<Rightarrow> Inl a | Inr evs' \<Rightarrow> Inr (evs @ evs')))"

definition hgImporterPass :: "Stores \<Rightarrow> HgImportRequest list \<Rightarrow> HgProxyHash list
    \<Rightarrow> Abort + Event list" where
  "hgImporterPass st rs ps =
     (if length rs \<noteq> length ps then Inl XCheckFailed
      else
        (case fetchLoop st rs ps of
           Inl a \<Rightarrow> Inl a
         | Inr (evs, futures) \<Rightarrow>
             (case collectAll futures of Inl a \<Rightarrow> Inl a | Inr evs' \<Rightarrow> Inr (evs @ evs'))))"

text \<open>
  The hgcache block starts with both iterators at \<^verbatim>\<open>begin()\<close> and \<^verbatim>\<open>count = 0\<close>,
  behind \<^verbatim>\<open>XCHECK_EQ(requests.size(), proxyHashes.size())\<close>; the importer block starts
  with the same check.
\<close>

definition cacheLoopStart :: "HgImportRequest list \<Rightarrow> HgProxyHash list \<Rightarrow> CacheLoop" where
  "cacheLoopStart rs ps = \<lparr>requests = rs, proxyHashes = ps, pos = 0, hitCount = 0\<rparr>"

definition hgcachePass :: "Stores \<Rightarrow> HgImportRequest list \<Rightarrow> HgProxyHash list
    \<Rightarrow> Abort + (Event list \<times> CacheLoop)" where
  "hgcachePass st rs ps =
     (if length rs \<noteq> length ps then Inl XCheckFailed
      else hgcacheLoop st (cacheLoopStart rs ps))"

text \<open>
  \<^verbatim>\<open>HgQueuedBackingStore::processBlobImportRequests\<close>. The result is the trace of the
  run, or the way the process stopped.
\<close>

definition processBlobImportRequests :: "Stores \<Rightarrow> HgImportRequest list \<Rightarrow> Abort + Event list" where
  "processBlobImportRequests st rs =
     (case collectHashes rs of
        Inl a \<Rightarrow> Inl a
      | Inr hashes \<Rightarrow>
          (case HgProxyHash_getBatch st hashes of
             Inl ex \<Rightarrow> Inr (Call_getBatch hashes # map (\<lambda>r. PromiseSet r (Inl ex)) rs)
           | Inr ps \<Rightarrow>
               (case hgcachePass st rs ps of
                  Inl a \<Rightarrow> Inl a
                | Inr (evs, s) \<Rightarrow>
                    (case hgImporterPass st (requests s) (proxyHashes s) of
                       Inl a \<Rightarrow> Inl a
                     | Inr evs' \<Rightarrow> Inr (Call_getBatch hashes # evs @ evs')))))"

section \<open>Observations on a run\<close>

text \<open>
  The promise completions of a trace, in order: each with the request whose promise is
  completed and the Try it receives.
\<close>

fun promiseSets :: "Event list \<Rightarrow> (HgImportRequest \<times> Response Try) list" where
  "promiseSets [] = []"
| "promiseSets (PromiseSet r t # evs) = (r, t) # promiseSets evs"
| "promiseSets (_ # evs) = promiseSets evs"

text \<open>
  The hashes of a batch of blob requests, as the first loop of
  \<^verbatim>\<open>processBlobImportRequests\<close> collects them.
\<close>

definition hashesOf :: "HgImportRequest list \<Rightarrow> Hash list" where
  "hashesOf rs = List.map_filter getRequest_BlobImport rs"

text \<open>
  What a request paired with a proxy hash receives when the hgcache answers
  (\<open>cacheHit\<close>), and what it receives from the importer (\<open>fetched\<close>).
\<close>

definition cacheHit :: "Stores \<Rightarrow> HgImportRequest \<times> HgProxyHash
    \<Rightarrow> HgImportRequest \<times> Response Try \<Rightarrow> bool" where
  "cacheHit st rp ro =
     (fst ro = fst rp \<and>
      (case getRequest_BlobImport (fst rp) of
         None \<Rightarrow> False
       | Some h \<Rightarrow>
           (case getBlobFromHgCache st h (snd rp) of
              None \<Rightarrow> False
            | Some b \<Rightarrow> snd ro = Inr (BlobResponse b))))"

definition fetched :: "Stores \<Rightarrow> HgImportRequest \<times> HgProxyHash
    \<Rightarrow> HgImportRequest \<times> Response Try" where
  "fetched st rp =
     (fst rp, case fetchBlobFromHgImporter st (snd rp) of
                Inl e \<Rightarrow> Inl e | Inr b \<Rightarrow> Inr (BlobResponse b))"

text \<open>
  A pair that the hgcache does not answer (\<open>missed\<close>), and what the promise of a
  request paired with a proxy hash is to receive from a whole run (\<open>outcome\<close>): the
  blob of the hgcache if it holds one for the pair, and otherwise the Try of the
  importer's fetch with that proxy hash, the error of a failed fetch included.
\<close>

definition missed :: "Stores \<Rightarrow> HgImportRequest \<times> HgProxyHash \<Rightarrow> bool" where
  "missed st rp =
     (case getRequest_BlobImport (fst rp) of
        None \<Rightarrow> True
      | Some h \<Rightarrow> getBlobFromHgCache st h (snd rp) = None)"

definition outcome :: "Stores \<Rightarrow> HgImportRequest \<times> HgProxyHash
    \<Rightarrow> HgImportRequest \<times> Response Try" where
  "outcome st rp =
     (case getRequest_BlobImport (fst rp) of
        None \<Rightarrow> fetched st rp
      | Some h \<Rightarrow>
          (case getBlobFromHgCache st h (snd rp) of
             None \<Rightarrow> fetched st rp
           | Some b \<Rightarrow> (fst rp, Inr (BlobResponse b))))"

text \<open>
  The states the hgcache loop goes through from a start state: the start state, and the
  state after each iteration entered from such a state.
\<close>

inductive hgcacheReach :: "Stores \<Rightarrow> CacheLoop \<Rightarrow> CacheLoop \<Rightarrow> bool" for st s0 where
  start: "hgcacheReach st s0 s0"
| iterate: "hgcacheReach st s0 s \<Longrightarrow> pos s < length (requests s)
     \<Longrightarrow> hgcacheStep st s = Inr (evs, s') \<Longrightarrow> hgcacheReach st s0 s'"

section \<open>The import request queue\<close>

text \<open>
  Modelled from the spec: the class \<^verbatim>\<open>HgImportRequestQueue\<close> behind the member
  \<^verbatim>\<open>queue_\<close> is not among the sources; only its callers are. The spec describes it so:
  \<^verbatim>\<open>enqueue(request)\<close> is non-blocking and orders by priority with first-in first-out
  among equals; \<^verbatim>\<open>dequeue(max_batch)\<close> blocks until a request is available or
  \<^verbatim>\<open>stop\<close> has been called, and returns up to \<^verbatim>\<open>max_batch\<close> requests of the same
  variant taken from the head, the requests behind them remaining queued; \<^verbatim>\<open>stop\<close>
  wakes all waiters, and subsequent \<^verbatim>\<open>dequeue\<close> calls return the empty batch.

  The queue is the list of its requests in the order in which they are served, and the
  flag that \<^verbatim>\<open>stop\<close> clears. A \<^verbatim>\<open>dequeue\<close> that would block is \<open>None\<close>.
\<close>

record HgImportRequestQueue =
  running :: bool
  queued :: "HgImportRequest list"

text \<open>
  Modelled from the spec: \<^verbatim>\<open>HgImportRequestQueue::enqueue\<close> is not among the sources.
  The request goes behind the queued requests of the same or a higher priority and in
  front of those of a lower one.
\<close>

fun insertByPriority :: "HgImportRequest \<Rightarrow> HgImportRequest list \<Rightarrow> HgImportRequest list" where
  "insertByPriority r [] = [r]"
| "insertByPriority r (x # xs) =
     (if priority x < priority r then r # x # xs else x # insertByPriority r xs)"

definition enqueue :: "HgImportRequest \<Rightarrow> HgImportRequestQueue \<Rightarrow> HgImportRequestQueue" where
  "enqueue r q = q\<lparr>queued := insertByPriority r (queued q)\<rparr>"

text \<open>
  Modelled from the spec: \<^verbatim>\<open>HgImportRequestQueue::stop\<close> is not among the sources. It
  clears the flag; the waiters it wakes find the flag cleared in their \<^verbatim>\<open>dequeue\<close>.
\<close>

definition stop :: "HgImportRequestQueue \<Rightarrow> HgImportRequestQueue" where
  "stop q = q\<lparr>running := False\<rparr>"

text \<open>
  Modelled from the spec: \<^verbatim>\<open>HgImportRequestQueue::dequeue\<close> is not among the sources.
  After \<^verbatim>\<open>stop\<close> it returns the empty batch; on an empty running queue it blocks;
  otherwise it takes requests from the head for as long as they are of the variant of
  the first one, and at most \<^verbatim>\<open>max_batch\<close> of them.
\<close>

definition sameVariant :: "HgImportRequest \<Rightarrow> HgImportRequest \<Rightarrow> bool" where
  "sameVariant a b =
     (isType_BlobImport a = isType_BlobImport b
      \<and> isType_TreeImport a = isType_TreeImport b
      \<and> isType_Prefetch a = isType_Prefetch b)"

definition dequeue :: "nat \<Rightarrow> HgImportRequestQueue
    \<Rightarrow> (HgImportRequest list \<times> HgImportRequestQueue) option" where
  "dequeue max_batch q =
     (if \<not> running q then Some ([], q)
      else
        (case queued q of
           [] \<Rightarrow> None
         | first # _ \<Rightarrow>
             (let batch = take max_batch (takeWhile (sameVariant first) (queued q))
              in Some (batch, q\<lparr>queued := drop (length batch) (queued q)\<rparr>))))"

section \<open>The worker threads\<close>

text \<open>
  \<^verbatim>\<open>processTreeImportRequests\<close> and \<^verbatim>\<open>processPrefetchRequests\<close>: for each request,
  read the payload through \<^verbatim>\<open>getRequest<T>()\<close> and complete the promise with the Try
  of the backing store's answer (\<^verbatim>\<open>setWith\<close>).
\<close>

fun processTreeImportRequests :: "Stores \<Rightarrow> HgImportRequest list \<Rightarrow> Abort + Event list" where
  "processTreeImportRequests st [] = Inr []"
| "processTreeImportRequests st (r # rs) =
     (case getRequest_TreeImport r of
        None \<Rightarrow> Inl NullDereference
      | Some hash \<Rightarrow>
          (case processTreeImportRequests st rs of
             Inl a \<Rightarrow> Inl a
           | Inr evs \<Rightarrow>
               Inr (Call_getTree hash
                    # PromiseSet r (case backingStore_getTree st hash of
                                      Inl e \<Rightarrow> Inl e | Inr t \<Rightarrow> Inr (TreeResponse t))
                    # evs)))"

fun processPrefetchRequests :: "Stores \<Rightarrow> HgImportRequest list \<Rightarrow> Abort + Event list" where
  "processPrefetchRequests st [] = Inr []"
| "processPrefetchRequests st (r # rs) =
     (case getRequest_Prefetch r of
        None \<Rightarrow> Inl NullDereference
      | Some hashes \<Rightarrow>
          (case processPrefetchRequests st rs of
             Inl a \<Rightarrow> Inl a
           | Inr evs \<Rightarrow>
               Inr (Call_prefetchBlobs hashes
                    # PromiseSet r (case backingStore_prefetchBlobs st hashes of
                                      Inl e \<Rightarrow> Inl e | Inr u \<Rightarrow> Inr PrefetchResponse)
                    # evs)))"

text \<open>
  The body of the loop of \<^verbatim>\<open>processRequest\<close> behind the emptiness test: the variant of
  \<^verbatim>\<open>requests.at(0)\<close> selects the processor, which receives the whole batch.
\<close>

definition routeBatch :: "Stores \<Rightarrow> HgImportRequest list \<Rightarrow> Abort + Event list" where
  "routeBatch st rs =
     (case rs of
        [] \<Rightarrow> Inl OutOfBounds
      | first # _ \<Rightarrow>
          if isType_BlobImport first then processBlobImportRequests st rs
          else if isType_TreeImport first then processTreeImportRequests st rs
          else if isType_Prefetch first then processPrefetchRequests st rs
          else Inr [])"

text \<open>
  Where a worker thread is in \<^verbatim>\<open>processRequest\<close>: in the call of \<^verbatim>\<open>dequeue\<close>
  (about to make it, or blocked in it), holding a batch it has dequeued, returned from the
  function, or stopped with the whole process.
\<close>

datatype Worker =
    InDequeue
  | Processing "HgImportRequest list"
  | Returned
  | Aborted Abort

text \<open>
  One step of a worker on the queue: the \<^verbatim>\<open>dequeue\<close> with the test
  \<^verbatim>\<open>if (requests.empty()) break;\<close>, or the processing of the batch it holds. \<open>None\<close>
  means that the worker cannot move: it is blocked in \<^verbatim>\<open>dequeue\<close>, or it has ended.
\<close>

definition workerStep :: "Stores \<Rightarrow> nat \<Rightarrow> Worker \<Rightarrow> HgImportRequestQueue
    \<Rightarrow> (Worker \<times> HgImportRequestQueue \<times> Event list) option" where
  "workerStep st batch_size w q =
     (case w of
        InDequeue \<Rightarrow>
          (case dequeue batch_size q of
             None \<Rightarrow> None
           | Some (batch, q') \<Rightarrow>
               if batch = [] then Some (Returned, q', [])
               else Some (Processing batch, q', [Dequeued batch]))
      | Processing batch \<Rightarrow>
          (case routeBatch st batch of
             Inl a \<Rightarrow> Some (Aborted a, q, [])
           | Inr evs \<Rightarrow> Some (InDequeue, q, evs))
      | Returned \<Rightarrow> None
      | Aborted a \<Rightarrow> None)"

fun workerRank :: "Worker \<Rightarrow> nat" where
  "workerRank InDequeue = 1"
| "workerRank (Processing b) = 2"
| "workerRank Returned = 0"
| "workerRank (Aborted a) = 0"

text \<open>
  A worker running alone, with no other thread touching the queue, until it cannot move.
  \<^verbatim>\<open>processRequest\<close> is this run from the call of \<^verbatim>\<open>dequeue\<close>; the result says where
  the thread ends up.
\<close>

function runWorker :: "Stores \<Rightarrow> nat \<Rightarrow> Worker \<Rightarrow> HgImportRequestQueue \<Rightarrow> Event list
    \<Rightarrow> Worker \<times> HgImportRequestQueue \<times> Event list" where
  "runWorker st batch_size w q tr =
     (case workerStep st batch_size w q of
        None \<Rightarrow> (w, q, tr)
      | Some (w', q', evs) \<Rightarrow> runWorker st batch_size w' q' (tr @ evs))"
  by pat_completeness auto
termination
  by (relation "measure (\<lambda>(st, n, w, q, tr). 3 * length (queued q) + workerRank w)")
     (auto simp: workerStep_def dequeue_def Let_def
           split: Worker.splits option.splits if_splits list.splits sum.splits)

declare runWorker.simps [simp del]

definition processRequest :: "Stores \<Rightarrow> nat \<Rightarrow> HgImportRequestQueue \<Rightarrow> Event list
    \<Rightarrow> Worker \<times> HgImportRequestQueue \<times> Event list" where
  "processRequest st batch_size q tr = runWorker st batch_size InDequeue q tr"

section \<open>The queued backing store\<close>

text \<open>
  The mutable members of \<^verbatim>\<open>HgQueuedBackingStore\<close>: the worker threads \<^verbatim>\<open>threads_\<close>,
  the queue \<^verbatim>\<open>queue_\<close> and the three watch lists of pending imports. \<open>nextPromise\<close>
  numbers the promises made so far, and \<open>events\<close> is the trace of everything the store
  and its workers have done.
\<close>

record HgQueuedBackingStore =
  threads :: "Worker list"
  queue :: HgImportRequestQueue
  pendingImportBlobWatches :: RequestWatchList
  pendingImportTreeWatches :: RequestWatchList
  pendingImportPrefetchWatches :: RequestWatchList
  nextPromise :: nat
  events :: "Event list"

text \<open>
  The constructor starts \<^verbatim>\<open>numberThreads\<close> threads, each running
  \<^verbatim>\<open>processRequest\<close>, on an empty running queue.
\<close>

definition newHgQueuedBackingStore :: "nat \<Rightarrow> HgQueuedBackingStore" where
  "newHgQueuedBackingStore numberThreads =
     \<lparr>threads = replicate numberThreads InDequeue,
      queue = \<lparr>running = True, queued = []\<rparr>,
      pendingImportBlobWatches = [],
      pendingImportTreeWatches = [],
      pendingImportPrefetchWatches = [],
      nextPromise = 0,
      events = []\<rparr>"

text \<open>
  A \<^verbatim>\<open>folly::SemiFuture\<close> handed to a caller: already resolved with a value
  (\<^verbatim>\<open>folly::makeSemiFuture\<close>), or waiting for the promise with the given number.
\<close>

datatype 'a SemiFuture = Ready 'a | Awaiting nat

text \<open>
  Modelled from the spec: the factories \<^verbatim>\<open>HgImportRequest::makeBlobImportRequest\<close>,
  \<^verbatim>\<open>makeTreeImportRequest\<close> and \<^verbatim>\<open>makePrefetchRequest\<close> are not among the sources.
  The spec says that they return a pair of the request and the future the caller awaits,
  and that the request owns its single-shot completion sink and its metrics scope. The last
  argument is the number of the promise made for the request, which is also the number of
  the watch its \<^verbatim>\<open>RequestMetricsScope\<close> registers.
\<close>

definition makeBlobImportRequest :: "Hash \<Rightarrow> ImportPriority \<Rightarrow> nat
    \<Rightarrow> HgImportRequest \<times> Blob SemiFuture" where
  "makeBlobImportRequest hash prio p =
     (\<lparr>request = BlobImport hash, priority = prio, promise = p\<rparr>, Awaiting p)"

definition makeTreeImportRequest :: "Hash \<Rightarrow> ImportPriority \<Rightarrow> nat
    \<Rightarrow> HgImportRequest \<times> Tree SemiFuture" where
  "makeTreeImportRequest hash prio p =
     (\<lparr>request = TreeImport hash, priority = prio, promise = p\<rparr>, Awaiting p)"

definition makePrefetchRequest :: "Hash list \<Rightarrow> ImportPriority \<Rightarrow> nat
    \<Rightarrow> HgImportRequest \<times> unit SemiFuture" where
  "makePrefetchRequest hashes prio p =
     (\<lparr>request = Prefetch hashes, priority = prio, promise = p\<rparr>, Awaiting p)"

text \<open>
  \<^verbatim>\<open>getTree\<close>, \<^verbatim>\<open>getBlob\<close> and \<^verbatim>\<open>prefetchBlobs\<close>. Each returns the future and the
  store after the call. The parameter \<^verbatim>\<open>id\<close> of the source is \<open>id'\<close> here.
\<close>

definition getTree :: "Hash \<Rightarrow> ImportPriority \<Rightarrow> HgQueuedBackingStore
    \<Rightarrow> Tree SemiFuture \<times> HgQueuedBackingStore" where
  "getTree id' prio s =
     (let importTracker = nextPromise s;
          (req, future) = makeTreeImportRequest id' prio importTracker
      in (future,
          s\<lparr>pendingImportTreeWatches := importTracker # pendingImportTreeWatches s,
            queue := enqueue req (queue s),
            nextPromise := nextPromise s + 1\<rparr>))"

definition getBlob :: "Stores \<Rightarrow> Hash \<Rightarrow> ImportPriority \<Rightarrow> HgQueuedBackingStore
    \<Rightarrow> Blob SemiFuture \<times> HgQueuedBackingStore" where
  "getBlob st id' prio s =
     (let proxyHash = HgProxyHash_new st id';
          s1 = s\<lparr>events := events s @ [Call_HgProxyHash id', Call_getBlobLocal id' proxyHash]\<rparr>
      in case getBlobLocal st id' proxyHash of
           Some blob \<Rightarrow> (Ready blob, s1)
         | None \<Rightarrow>
             (let importTracker = nextPromise s1;
                  (req, future) = makeBlobImportRequest id' prio importTracker
              in (future,
                  s1\<lparr>pendingImportBlobWatches := importTracker # pendingImportBlobWatches s1,
                     queue := enqueue req (queue s1),
                     nextPromise := nextPromise s1 + 1\<rparr>)))"

definition prefetchBlobs :: "Hash list \<Rightarrow> HgQueuedBackingStore
    \<Rightarrow> unit SemiFuture \<times> HgQueuedBackingStore" where
  "prefetchBlobs ids s =
     (let importTracker = nextPromise s;
          (req, future) = makePrefetchRequest ids kNormal importTracker
      in (future,
          s\<lparr>pendingImportPrefetchWatches := importTracker # pendingImportPrefetchWatches s,
            queue := enqueue req (queue s),
            nextPromise := nextPromise s + 1\<rparr>))"

text \<open>
  \<^verbatim>\<open>getPendingImportWatches\<close> and \<^verbatim>\<open>getImportWatches\<close>: a \<^verbatim>\<open>switch\<close> over the
  enumerators, and \<^verbatim>\<open>EDEN_BUG\<close> behind it.
\<close>

definition getPendingImportWatches :: "HgQueuedBackingStore \<Rightarrow> HgImportObject
    \<Rightarrow> Abort + RequestWatchList" where
  "getPendingImportWatches s object =
     (case object of
        BLOB \<Rightarrow> Inr (pendingImportBlobWatches s)
      | TREE \<Rightarrow> Inr (pendingImportTreeWatches s)
      | PREFETCH \<Rightarrow> Inr (pendingImportPrefetchWatches s)
      | HgImportObject_other v \<Rightarrow> Inl (EdenBug ''unknown hg import object type''))"

definition getImportWatches :: "Stores \<Rightarrow> HgQueuedBackingStore \<Rightarrow> RequestStage
    \<Rightarrow> HgImportObject \<Rightarrow> Abort + RequestWatchList" where
  "getImportWatches st s stage object =
     (case stage of
        PENDING \<Rightarrow> getPendingImportWatches s object
      | LIVE \<Rightarrow> Inr (getLiveImportWatches st object)
      | RequestStage_other v \<Rightarrow> Inl (EdenBug ''unknown hg import stage''))"

text \<open>
  The destructor calls \<^verbatim>\<open>queue_.stop()\<close> and then joins the threads in order. Joining a
  thread waits until its \<^verbatim>\<open>processRequest\<close> has returned; the thread is run to its end
  here, and \<open>None\<close> means that it never returns or that the process stopped.
\<close>

definition joinThread :: "Stores \<Rightarrow> nat \<Rightarrow> nat \<Rightarrow> HgQueuedBackingStore
    \<Rightarrow> HgQueuedBackingStore option" where
  "joinThread st batch_size i s =
     (case runWorker st batch_size (threads s ! i) (queue s) (events s) of
        (w, q, tr) \<Rightarrow>
          if w = Returned
          then Some (s\<lparr>threads := (threads s)[i := w], queue := q, events := tr\<rparr>)
          else None)"

fun joinThreads :: "Stores \<Rightarrow> nat \<Rightarrow> nat list \<Rightarrow> HgQueuedBackingStore
    \<Rightarrow> HgQueuedBackingStore option" where
  "joinThreads st batch_size [] s = Some s"
| "joinThreads st batch_size (i # is) s =
     (case joinThread st batch_size i s of
        None \<Rightarrow> None
      | Some s' \<Rightarrow> joinThreads st batch_size is s')"

definition destructor :: "Stores \<Rightarrow> nat \<Rightarrow> HgQueuedBackingStore
    \<Rightarrow> HgQueuedBackingStore option" where
  "destructor st batch_size s =
     joinThreads st batch_size [0..<length (threads s)] (s\<lparr>queue := stop (queue s)\<rparr>)"

text \<open>
  The store with its threads running concurrently: a step is a step of one worker on the
  shared queue, or a call of \<^verbatim>\<open>getBlob\<close>, \<^verbatim>\<open>getTree\<close> or \<^verbatim>\<open>prefetchBlobs\<close> by a
  client thread, or the \<^verbatim>\<open>queue_.stop()\<close> of the destructor. The queue is internally
  synchronised, so each of its operations is one step. Nothing moves once a worker has
  stopped the process.
\<close>

fun isAborted :: "Worker \<Rightarrow> bool" where
  "isAborted (Aborted a) = True"
| "isAborted w = False"

inductive storeStep :: "Stores \<Rightarrow> nat \<Rightarrow> HgQueuedBackingStore \<Rightarrow> HgQueuedBackingStore \<Rightarrow> bool"
  for st batch_size where
  worker:
    "i < length (threads s) \<Longrightarrow> \<not> list_ex isAborted (threads s)
     \<Longrightarrow> workerStep st batch_size (threads s ! i) (queue s) = Some (w', q', evs)
     \<Longrightarrow> storeStep st batch_size s
           (s\<lparr>threads := (threads s)[i := w'], queue := q', events := events s @ evs\<rparr>)"
| client_getBlob:
    "\<not> list_ex isAborted (threads s)
     \<Longrightarrow> storeStep st batch_size s (snd (getBlob st id' prio s))"
| client_getTree:
    "\<not> list_ex isAborted (threads s)
     \<Longrightarrow> storeStep st batch_size s (snd (getTree id' prio s))"
| client_prefetchBlobs:
    "\<not> list_ex isAborted (threads s)
     \<Longrightarrow> storeStep st batch_size s (snd (prefetchBlobs ids s))"
| queue_stop:
    "\<not> list_ex isAborted (threads s)
     \<Longrightarrow> storeStep st batch_size s (s\<lparr>queue := stop (queue s)\<rparr>)"

text \<open>The batches that workers have taken from the queue along a trace.\<close>

fun dequeuedBatches :: "Event list \<Rightarrow> HgImportRequest list list" where
  "dequeuedBatches [] = []"
| "dequeuedBatches (Dequeued b # evs) = b # dequeuedBatches evs"
| "dequeuedBatches (_ # evs) = dequeuedBatches evs"

text \<open>
  A worker that can still reach the end of \<^verbatim>\<open>processRequest\<close>: it has not stopped the
  process, and the batch it holds, if any, is processed without stopping it.
\<close>

definition canFinish :: "Stores \<Rightarrow> Worker \<Rightarrow> bool" where
  "canFinish st w =
     (case w of
        Processing b \<Rightarrow> (case routeBatch st b of Inl a \<Rightarrow> False | Inr evs \<Rightarrow> True)
      | Aborted a \<Rightarrow> False
      | _ \<Rightarrow> True)"

section \<open>The FUSE channel\<close>

text \<open>
  Of the channel only the header \<^verbatim>\<open>FuseChannel.h\<close> is among the sources: the members,
  the signatures and their documentation. The bodies of its methods are modelled from the
  spec and from that documentation.
\<close>

subsection \<open>The reply writer\<close>

text \<open>
  Modelled from the spec: \<^verbatim>\<open>fuse_in_header\<close> and \<^verbatim>\<open>fuse_out_header\<close> are declared in
  \<^verbatim>\<open>FuseTypes.h\<close>, which is not among the sources. The spec gives the request header as
  \<^verbatim>\<open>{opcode, unique_id, node_id, uid, gid, pid, length}\<close> and the reply header as
  \<^verbatim>\<open>{length, status, unique_id}\<close>, and says that the wire format is the FUSE ABI; there
  the reply header takes 16 bytes. The fields are numbers here; the width of the length
  field is not modelled.
\<close>

record fuse_in_header =
  in_len :: nat
  in_opcode :: nat
  in_unique :: nat
  in_nodeid :: nat
  in_uid :: nat
  in_gid :: nat
  in_pid :: nat

record fuse_out_header =
  out_len :: nat
  out_error :: int
  out_unique :: nat

definition sizeof_fuse_out_header :: nat where
  "sizeof_fuse_out_header = 16"

text \<open>
  An \<^verbatim>\<open>iovec\<close> designates a region of memory: the reply header, which
  \<^verbatim>\<open>sendRawReply\<close> updates in place, or a buffer of payload bytes. \<open>iov_len\<close> is the
  length of the region.
\<close>

datatype iovec = IoHeader fuse_out_header | IoBytes "nat list"

fun iov_len :: "iovec \<Rightarrow> nat" where
  "iov_len (IoHeader h) = sizeof_fuse_out_header"
| "iov_len (IoBytes bs) = length bs"

text \<open>
  The device descriptor: the gathered writes it has taken, each as the vector that was
  written, and the \<^verbatim>\<open>errno\<close> with which it refuses writes, if it does. \<^verbatim>\<open>writev\<close>
  returns the number of bytes written.
\<close>

record FuseDevice =
  deviceWrites :: "iovec list list"
  deviceErrno :: "nat option"

datatype system_error = system_error nat | InvalidReply

definition writev :: "FuseDevice \<Rightarrow> iovec list \<Rightarrow> system_error + (nat \<times> FuseDevice)" where
  "writev dev iov =
     (case deviceErrno dev of
        Some errno \<Rightarrow> Inl (system_error errno)
      | None \<Rightarrow>
          Inr (sum_list (map iov_len iov), dev\<lparr>deviceWrites := deviceWrites dev @ [iov]\<rparr>))"

text \<open>
  Modelled from the spec: the body of \<^verbatim>\<open>FuseChannel::sendRawReply\<close> is not among the
  sources. Its documentation in the header says that the data may be scattered across a
  number of buffers, that it is sent with \<^verbatim>\<open>writev\<close> as a single unit, that the start
  of the data is assumed to be a \<^verbatim>\<open>fuse_out_header\<close>, that the method sums the iovec
  lengths to compute the value to store into \<^verbatim>\<open>fuse_out_header::len\<close>, and that it
  throws \<^verbatim>\<open>system_error\<close> if the write fails. The sum is a loop over the vector.
\<close>

fun sumIovecLengths :: "iovec list \<Rightarrow> nat \<Rightarrow> nat" where
  "sumIovecLengths [] acc = acc"
| "sumIovecLengths (v # vs) acc = sumIovecLengths vs (acc + iov_len v)"

definition sendRawReply :: "FuseDevice \<Rightarrow> iovec list \<Rightarrow> system_error + FuseDevice" where
  "sendRawReply dev iov =
     (case iov of
        IoHeader h # payload \<Rightarrow>
          (case writev dev (IoHeader (h\<lparr>out_len := sumIovecLengths iov 0\<rparr>) # payload) of
             Inl e \<Rightarrow> Inl e
           | Inr (written, dev') \<Rightarrow> Inr dev')
      | _ \<Rightarrow> Inl InvalidReply)"

text \<open>
  Modelled from the spec: the body of the scatter-gather \<^verbatim>\<open>FuseChannel::sendReply\<close> is
  not among the sources. Its documentation says that it prepends a
  \<^verbatim>\<open>fuse_out_header\<close> to the payload components and passes control to
  \<^verbatim>\<open>sendRawReply\<close>; the spec says that the reply carries the request's unique id and
  status 0. The parameter \<^verbatim>\<open>request\<close> is \<open>req\<close> here.
\<close>

definition sendReply :: "FuseDevice \<Rightarrow> fuse_in_header \<Rightarrow> iovec list \<Rightarrow> system_error + FuseDevice" where
  "sendReply dev req vec =
     sendRawReply dev
       (IoHeader \<lparr>out_len = 0, out_error = 0, out_unique = in_unique req\<rparr> # vec)"

subsection \<open>The session\<close>









section \<open>A concrete batch\<close>

text \<open>
  Three blob requests for the hashes 1, 2 and 3, each with a promise of its own. In
  \<open>scenarioStores\<close> the proxy-hash lookup succeeds, the hgcache holds the blob of hash 2
  only, and the importer fails for the proxy hash of hash 3. In \<open>failingStores\<close> the
  batched proxy-hash lookup fails.
\<close>

definition blobRequest :: "Hash \<Rightarrow> HgImportRequest" where
  "blobRequest h = \<lparr>request = BlobImport h, priority = kNormal, promise = h\<rparr>"

definition scenarioBatch :: "HgImportRequest list" where
  "scenarioBatch = [blobRequest 1, blobRequest 2, blobRequest 3]"

definition scenarioStores :: Stores where
  "scenarioStores =
     \<lparr>HgProxyHash_getBatch = (\<lambda>hs. Inr (map HgProxyHash hs)),
      HgProxyHash_new = HgProxyHash,
      getBlobFromHgCache = (\<lambda>h p. if h = 2 then Some ''cached'' else None),
      fetchBlobFromHgImporter =
        (\<lambda>p. if p = HgProxyHash 3 then Inl (Exception ''fetch failed'') else Inr ''imported''),
      getBlobLocal = (\<lambda>h p. if h = 2 then Some ''cached'' else None),
      backingStore_getTree = (\<lambda>h. Inr ''tree''),
      backingStore_prefetchBlobs = (\<lambda>hs. Inr ()),
      getLiveImportWatches = (\<lambda>object. [])\<rparr>"

definition failingStores :: Stores where
  "failingStores =
     scenarioStores\<lparr>HgProxyHash_getBatch := (\<lambda>hs. Inl (Exception ''no proxy hash''))\<rparr>"

text \<open>
  A queue that holds two blob requests in front of a tree request and another blob
  request, and a store with two workers on that queue, one of them waiting in
  \<^verbatim>\<open>dequeue\<close> and the other holding a batch.
\<close>

definition treeRequest :: "Hash \<Rightarrow> HgImportRequest" where
  "treeRequest h = \<lparr>request = TreeImport h, priority = kNormal, promise = h\<rparr>"

definition scenarioQueue :: HgImportRequestQueue where
  "scenarioQueue =
     \<lparr>running = True,
      queued = [blobRequest 1, blobRequest 2, treeRequest 3, blobRequest 4]\<rparr>"

definition scenarioStore :: HgQueuedBackingStore where
  "scenarioStore =
     (newHgQueuedBackingStore 2)
       \<lparr>threads := [InDequeue, Processing [blobRequest 5]], queue := scenarioQueue\<rparr>"

text \<open>
  A request with the unique id 42. A channel with one thread that is taken over, takes
  request 7, loses its worker and then finishes the request; and a channel with two
  threads whose initialization fails before the second worker is started, and whose first
  worker then stops.
\<close>

definition scenarioRequest :: fuse_in_header where
  "scenarioRequest =
     \<lparr>in_len = 40, in_opcode = 15, in_unique = 42, in_nodeid = 1, in_uid = 0, in_gid = 0,
      in_pid = 1\<rparr>"




section \<open>Properties of blob batch processing\<close>

lemma promiseSets_append: "promiseSets (xs @ ys) = promiseSets xs @ promiseSets ys"
  by (induction xs rule: promiseSets.induct) auto

lemma swap_pop_length: "i < length xs \<Longrightarrow> length (swap_pop i xs) = length xs - 1"
  by (simp add: swap_pop_def)

lemma swap_pop_mset:
  assumes "i < length xs"
  shows "add_mset (xs ! i) (mset (swap_pop i xs)) = mset xs"
proof -
  let ?ys = "xs[i := last xs]"
  from assms have ne: "?ys \<noteq> []" by auto
  have l: "last ?ys = last xs"
    using assms by (cases "xs = []") (auto simp: last_list_update)
  have "mset ?ys = add_mset (last ?ys) (mset (butlast ?ys))"
    using ne by (metis append_butlast_last_id mset.simps(2) mset_append add_mset_add_single union_mset_add_mset_right add.right_neutral mset.simps(1))
  moreover have "mset ?ys = add_mset (last xs) (mset xs - {#xs ! i#})"
    using assms by (simp add: mset_update)
  ultimately have "mset (butlast ?ys) = mset xs - {#xs ! i#}"
    using l by simp
  then show ?thesis
    using assms by (simp add: swap_pop_def nth_mem_mset)
qed

lemma swap_pop_zip:
  assumes "length xs = length ys" "i < length xs"
  shows "zip (swap_pop i xs) (swap_pop i ys) = swap_pop i (zip xs ys)"
proof -
  have ne: "xs \<noteq> []" "ys \<noteq> []" using assms by auto
  have "last (zip xs ys) = (last xs, last ys)"
    using assms ne by (simp add: last_zip)
  then have "swap_pop i (zip xs ys) = butlast (zip (xs[i := last xs]) (ys[i := last ys]))"
    by (simp add: swap_pop_def zip_update)
  also have "\<dots> = zip (butlast (xs[i := last xs])) (butlast (ys[i := last ys]))"
    using assms by (simp add: butlast_conv_take take_zip)
  finally show ?thesis
    by (simp add: swap_pop_def)
qed

lemma hgcacheReach_first:
  assumes "hgcacheReach st s' t" "pos s < length (requests s)" "hgcacheStep st s = Inr (evs, s')"
  shows "hgcacheReach st s t"
  using assms
proof (induction rule: hgcacheReach.induct)
  case start
  then show ?case by (blast intro: hgcacheReach.intros)
next
  case (iterate s1 evs1 s1')
  then show ?case by (blast intro: hgcacheReach.intros)
qed

lemma isBlob_getRequest:
  "isType_BlobImport r \<Longrightarrow> \<exists>h. getRequest_BlobImport r = Some h"
  by (cases "request r") auto

lemma set_swap_pop: "i < length xs \<Longrightarrow> set (swap_pop i xs) \<subseteq> set xs"
proof -
  assume "i < length xs"
  then have "set_mset (add_mset (xs ! i) (mset (swap_pop i xs))) = set_mset (mset xs)"
    by (simp only: swap_pop_mset)
  then show ?thesis by auto
qed

lemma hgcacheStep_cases:
  assumes len: "length (requests s) = length (proxyHashes s)"
    and blob: "\<forall>r\<in>set (requests s). isType_BlobImport r"
    and lt: "pos s < length (requests s)"
  shows "(\<exists>evs ro. hgcacheStep st s =
            Inr (evs, s\<lparr>requests := swap_pop (pos s) (requests s),
                          proxyHashes := swap_pop (pos s) (proxyHashes s),
                          hitCount := hitCount s + 1\<rparr>)
          \<and> promiseSets evs = [ro]
          \<and> cacheHit st (requests s ! pos s, proxyHashes s ! pos s) ro)
       \<or> (\<exists>evs. hgcacheStep st s = Inr (evs, s\<lparr>pos := pos s + 1\<rparr>) \<and> promiseSets evs = [])"
proof -
  from blob lt obtain h where h: "getRequest_BlobImport (requests s ! pos s) = Some h"
    using isBlob_getRequest nth_mem by blast
  show ?thesis
  proof (cases "getBlobFromHgCache st h (proxyHashes s ! pos s)")
    case None
    with h len lt show ?thesis
      by (simp add: hgcacheStep_def Let_def)
  next
    case (Some b)
    with h len lt show ?thesis
      by (simp add: hgcacheStep_def Let_def cacheHit_def)
  qed
qed

lemma hgcacheLoop_ok:
  assumes "length (requests s) = length (proxyHashes s)"
    and "\<forall>r\<in>set (requests s). isType_BlobImport r"
  shows "\<exists>evs s' hits. hgcacheLoop st s = Inr (evs, s')
      \<and> length (requests s') = length (proxyHashes s')
      \<and> (\<forall>r\<in>set (requests s'). isType_BlobImport r)
      \<and> mset (zip (requests s) (proxyHashes s))
          = mset hits + mset (zip (requests s') (proxyHashes s'))
      \<and> list_all2 (cacheHit st) hits (promiseSets evs)
      \<and> hgcacheReach st s s'"
  using assms
proof (induction st s rule: hgcacheLoop.induct)
  case (1 st s)
  show ?case
  proof (cases "pos s < length (requests s)")
    case False
    then have "hgcacheLoop st s = Inr ([], s)"
      by (simp add: hgcacheLoop.simps [of st s])
    moreover have "hgcacheReach st s s" by (rule hgcacheReach.start)
    ultimately show ?thesis using "1.prems"
      by (intro exI [of _ "[]"] exI [of _ s]) simp
  next
    case True
    let ?i = "pos s"
    from hgcacheStep_cases [OF "1.prems" True, of st]
    show ?thesis
    proof (elim disjE exE conjE)
      fix evs ro
      let ?s' = "s\<lparr>requests := swap_pop ?i (requests s),
                     proxyHashes := swap_pop ?i (proxyHashes s),
                     hitCount := hitCount s + 1\<rparr>"
      assume step: "hgcacheStep st s = Inr (evs, ?s')"
        and ps: "promiseSets evs = [ro]"
        and hit: "cacheHit st (requests s ! ?i, proxyHashes s ! ?i) ro"
      have len': "length (requests ?s') = length (proxyHashes ?s')"
        using "1.prems" True by (simp add: swap_pop_length)
      have blob': "\<forall>r\<in>set (requests ?s'). isType_BlobImport r"
        using "1.prems" True set_swap_pop [of ?i "requests s"] by auto
      from "1.IH" [OF True step refl len' blob']
      obtain evs' s'' hits where
        loop: "hgcacheLoop st ?s' = Inr (evs', s'')"
        and l2: "length (requests s'') = length (proxyHashes s'')"
        and b2: "\<forall>r\<in>set (requests s''). isType_BlobImport r"
        and m2: "mset (zip (requests ?s') (proxyHashes ?s'))
                 = mset hits + mset (zip (requests s'') (proxyHashes s''))"
        and h2: "list_all2 (cacheHit st) hits (promiseSets evs')"
        and r2: "hgcacheReach st ?s' s''"
        by blast
      have res: "hgcacheLoop st s = Inr (evs @ evs', s'')"
        using True step loop by (simp add: hgcacheLoop.simps [of st s])
      have "mset (zip (requests s) (proxyHashes s))
            = add_mset (zip (requests s) (proxyHashes s) ! ?i)
                (mset (swap_pop ?i (zip (requests s) (proxyHashes s))))"
        using True "1.prems" swap_pop_mset [of ?i "zip (requests s) (proxyHashes s)"]
        by simp
      also have "\<dots> = add_mset (requests s ! ?i, proxyHashes s ! ?i)
                (mset (zip (requests ?s') (proxyHashes ?s')))"
        using True "1.prems" by (simp add: swap_pop_zip)
      finally have m: "mset (zip (requests s) (proxyHashes s))
            = mset ((requests s ! ?i, proxyHashes s ! ?i) # hits)
              + mset (zip (requests s'') (proxyHashes s''))"
        using m2 by simp
      have h: "list_all2 (cacheHit st) ((requests s ! ?i, proxyHashes s ! ?i) # hits)
                 (promiseSets (evs @ evs'))"
        using ps hit h2 by (simp add: promiseSets_append)
      have r: "hgcacheReach st s s''"
        using hgcacheReach_first [OF r2 True step] .
      from res l2 b2 m h r show ?thesis by blast
    next
      fix evs
      let ?s' = "s\<lparr>pos := pos s + 1\<rparr>"
      assume step: "hgcacheStep st s = Inr (evs, ?s')"
        and ps: "promiseSets evs = []"
      have len': "length (requests ?s') = length (proxyHashes ?s')"
        using "1.prems" by simp
      have blob': "\<forall>r\<in>set (requests ?s'). isType_BlobImport r"
        using "1.prems" by simp
      from "1.IH" [OF True step refl len' blob']
      obtain evs' s'' hits where
        loop: "hgcacheLoop st ?s' = Inr (evs', s'')"
        and l2: "length (requests s'') = length (proxyHashes s'')"
        and b2: "\<forall>r\<in>set (requests s''). isType_BlobImport r"
        and m2: "mset (zip (requests ?s') (proxyHashes ?s'))
                 = mset hits + mset (zip (requests s'') (proxyHashes s''))"
        and h2: "list_all2 (cacheHit st) hits (promiseSets evs')"
        and r2: "hgcacheReach st ?s' s''"
        by blast
      have res: "hgcacheLoop st s = Inr (evs @ evs', s'')"
        using True step loop by (simp add: hgcacheLoop.simps [of st s])
      have m: "mset (zip (requests s) (proxyHashes s))
            = mset hits + mset (zip (requests s'') (proxyHashes s''))"
        using m2 by simp
      have h: "list_all2 (cacheHit st) hits (promiseSets (evs @ evs'))"
        using ps h2 by (simp add: promiseSets_append)
      have r: "hgcacheReach st s s''"
        using hgcacheReach_first [OF r2 True step] .
      from res l2 b2 m h r show ?thesis by blast
    qed
  qed
qed

lemma collectHashes_blob:
  "\<forall>r\<in>set rs. isType_BlobImport r \<Longrightarrow> collectHashes rs = Inr (hashesOf rs)"
proof (induction rs)
  case Nil
  then show ?case by (simp add: hashesOf_def map_filter_simps)
next
  case (Cons r rs)
  then obtain h where "getRequest_BlobImport r = Some h"
    using isBlob_getRequest by (meson list.set_intros(1))
  with Cons show ?case
    by (simp add: hashesOf_def map_filter_simps)
qed

lemma fetchLoop_ok:
  "length rs = length ps \<Longrightarrow>
   fetchLoop st rs ps =
     Inr (map Call_fetchBlobFromHgImporter ps,
          map (\<lambda>(r, p). (r, fetchBlobFromHgImporter st p)) (zip rs ps))"
  by (induction rs ps rule: list_induct2) simp_all

lemma collectAll_ok:
  "\<forall>f\<in>set fs. isType_BlobImport (fst f) \<Longrightarrow>
   \<exists>evs. collectAll fs = Inr evs
     \<and> promiseSets evs =
         map (\<lambda>(r, t). (r, case t of Inl e \<Rightarrow> Inl e | Inr b \<Rightarrow> Inr (BlobResponse b))) fs"
proof (induction fs)
  case Nil
  then show ?case by simp
next
  case (Cons f fs)
  obtain r t where f: "f = (r, t)" by (cases f)
  with Cons.prems obtain h where "getRequest_BlobImport r = Some h"
    using isBlob_getRequest by fastforce
  moreover from Cons obtain evs where "collectAll fs = Inr evs"
    "promiseSets evs =
       map (\<lambda>(r, t). (r, case t of Inl e \<Rightarrow> Inl e | Inr b \<Rightarrow> Inr (BlobResponse b))) fs"
    by auto
  ultimately show ?case using f by simp
qed

lemma hgImporterPass_ok:
  assumes "length rs = length ps" and "\<forall>r\<in>set rs. isType_BlobImport r"
  shows "\<exists>evs. hgImporterPass st rs ps = Inr evs
      \<and> promiseSets evs = map (fetched st) (zip rs ps)"
proof -
  let ?fs = "map (\<lambda>(r, p). (r, fetchBlobFromHgImporter st p)) (zip rs ps)"
  have "\<forall>f\<in>set ?fs. isType_BlobImport (fst f)"
    using assms(2) by (auto dest: set_zip_leftD)
  from collectAll_ok [OF this] obtain evs where
    c: "collectAll ?fs = Inr evs"
    and p: "promiseSets evs =
       map (\<lambda>(r, t). (r, case t of Inl e \<Rightarrow> Inl e | Inr b \<Rightarrow> Inr (BlobResponse b))) ?fs"
    by blast
  have calls: "promiseSets (map Call_fetchBlobFromHgImporter ps) = []"
    by (induction ps) simp_all
  have "hgImporterPass st rs ps = Inr (map Call_fetchBlobFromHgImporter ps @ evs)"
    using assms(1) c by (simp add: hgImporterPass_def fetchLoop_ok)
  moreover have "promiseSets (map Call_fetchBlobFromHgImporter ps @ evs)
      = map (fetched st) (zip rs ps)"
    using p calls by (simp add: promiseSets_append fetched_def case_prod_beta)
  ultimately show ?thesis by blast
qed

lemma hgcacheStep_Inr:
  assumes "hgcacheStep st s = Inr (evs, s')"
  shows "s' = s\<lparr>requests := swap_pop (pos s) (requests s),
                 proxyHashes := swap_pop (pos s) (proxyHashes s),
                 hitCount := hitCount s + 1\<rparr>
       \<or> s' = s\<lparr>pos := pos s + 1\<rparr>"
  using assms
  by (auto simp: hgcacheStep_def Let_def split: option.splits if_splits)

lemma hgcacheReach_inv:
  assumes "hgcacheReach st s0 s" and "length (requests s0) = length (proxyHashes s0)"
  shows "length (requests s) = length (proxyHashes s)
     \<and> mset (zip (requests s) (proxyHashes s)) \<subseteq># mset (zip (requests s0) (proxyHashes s0))"
  using assms
proof (induction rule: hgcacheReach.induct)
  case start
  then show ?case by simp
next
  case (iterate s evs s')
  then have len: "length (requests s) = length (proxyHashes s)"
    and sub: "mset (zip (requests s) (proxyHashes s))
        \<subseteq># mset (zip (requests s0) (proxyHashes s0))"
    by simp_all
  from hgcacheStep_Inr [OF iterate.hyps(3)] show ?case
  proof
    assume s': "s' = s\<lparr>requests := swap_pop (pos s) (requests s),
                 proxyHashes := swap_pop (pos s) (proxyHashes s),
                 hitCount := hitCount s + 1\<rparr>"
    have "mset (zip (requests s') (proxyHashes s'))
        = mset (swap_pop (pos s) (zip (requests s) (proxyHashes s)))"
      using s' len iterate.hyps(2) by (simp add: swap_pop_zip)
    also have "\<dots> \<subseteq># mset (zip (requests s) (proxyHashes s))"
      using swap_pop_mset [of "pos s" "zip (requests s) (proxyHashes s)"] len iterate.hyps(2)
      by (metis length_zip min.idem mset_subset_eq_add_mset_cancel subset_mset.order_refl
          mset_subset_eq_insertD subset_mset.less_imp_le)
    finally show ?thesis
      using s' len iterate.hyps(2) sub by (simp add: swap_pop_length)
  next
    assume "s' = s\<lparr>pos := pos s + 1\<rparr>"
    then show ?thesis using len sub by simp
  qed
qed

lemma processBlobImportRequests_ok:
  assumes blob: "\<forall>r\<in>set rs. isType_BlobImport r"
    and gb: "HgProxyHash_getBatch st (hashesOf rs) = Inr ps"
    and len: "length ps = length rs"
  shows "\<exists>cevs s revs hits.
      hgcachePass st rs ps = Inr (cevs, s)
    \<and> hgImporterPass st (requests s) (proxyHashes s) = Inr revs
    \<and> processBlobImportRequests st rs = Inr (Call_getBatch (hashesOf rs) # cevs @ revs)
    \<and> length (requests s) = length (proxyHashes s)
    \<and> mset (zip rs ps) = mset hits + mset (zip (requests s) (proxyHashes s))
    \<and> list_all2 (cacheHit st) hits (promiseSets cevs)
    \<and> promiseSets revs = map (fetched st) (zip (requests s) (proxyHashes s))
    \<and> hgcacheReach st (cacheLoopStart rs ps) s"
proof -
  let ?s0 = "cacheLoopStart rs ps"
  have l0: "length (requests ?s0) = length (proxyHashes ?s0)"
    and b0: "\<forall>r\<in>set (requests ?s0). isType_BlobImport r"
    using blob len by (simp_all add: cacheLoopStart_def)
  from hgcacheLoop_ok [OF l0 b0, of st] obtain cevs s hits where
    loop: "hgcacheLoop st ?s0 = Inr (cevs, s)"
    and l: "length (requests s) = length (proxyHashes s)"
    and b: "\<forall>r\<in>set (requests s). isType_BlobImport r"
    and m: "mset (zip (requests ?s0) (proxyHashes ?s0))
            = mset hits + mset (zip (requests s) (proxyHashes s))"
    and h: "list_all2 (cacheHit st) hits (promiseSets cevs)"
    and r: "hgcacheReach st ?s0 s"
    by blast
  have cp: "hgcachePass st rs ps = Inr (cevs, s)"
    using loop len by (simp add: hgcachePass_def cacheLoopStart_def)
  from hgImporterPass_ok [OF l b, of st] obtain revs where
    ip: "hgImporterPass st (requests s) (proxyHashes s) = Inr revs"
    and pr: "promiseSets revs = map (fetched st) (zip (requests s) (proxyHashes s))"
    by blast
  have "processBlobImportRequests st rs = Inr (Call_getBatch (hashesOf rs) # cevs @ revs)"
    using collectHashes_blob [OF blob] gb cp ip by (simp add: processBlobImportRequests_def)
  moreover have "mset (zip rs ps) = mset hits + mset (zip (requests s) (proxyHashes s))"
    using m by (simp add: cacheLoopStart_def)
  ultimately show ?thesis using cp ip l h pr r by blast
qed

lemma processBlobImportRequests_failed_batch:
  assumes blob: "\<forall>r\<in>set rs. isType_BlobImport r"
    and gb: "HgProxyHash_getBatch st (hashesOf rs) = Inl ex"
  shows "processBlobImportRequests st rs
       = Inr (Call_getBatch (hashesOf rs) # map (\<lambda>r. PromiseSet r (Inl ex)) rs)"
  using collectHashes_blob [OF blob] gb by (simp add: processBlobImportRequests_def)

lemma promiseSets_map_PromiseSet:
  "promiseSets (map (\<lambda>r. PromiseSet r t) rs) = map (\<lambda>r. (r, t)) rs"
  by (induction rs) simp_all

lemma cacheHit_fst:
  "list_all2 (cacheHit st) hits outs \<Longrightarrow> map fst outs = map fst hits"
  by (induction rule: list_all2_induct) (simp_all add: cacheHit_def)

lemma map_fst_fetched: "map fst (map (fetched st) xs) = map fst xs"
  by (induction xs) (simp_all add: fetched_def)

lemma promiseSets_trace_cases:
  assumes m: "mset (zip rs ps) = mset hits + mset (zip rs' ps')"
    and h: "list_all2 (cacheHit st) hits (promiseSets cevs)"
    and pr: "promiseSets revs = map (fetched st) (zip rs' ps')"
    and mem: "ro \<in> set (promiseSets (Call_getBatch hs # cevs @ revs))"
  shows "\<exists>rp\<in>set (zip rs ps). cacheHit st rp ro \<or> ro = fetched st rp"
proof -
  have sub1: "set hits \<subseteq> set (zip rs ps)" and sub2: "set (zip rs' ps') \<subseteq> set (zip rs ps)"
    using m by (metis set_mset_mset set_mset_union Un_upper1, metis set_mset_mset set_mset_union Un_upper2)
  from mem have "ro \<in> set (promiseSets cevs) \<or> ro \<in> set (promiseSets revs)"
    by (simp add: promiseSets_append)
  then show ?thesis
  proof
    assume "ro \<in> set (promiseSets cevs)"
    with h obtain rp where "rp \<in> set hits" "cacheHit st rp ro"
      by (metis in_set_conv_nth list_all2_conv_all_nth)
    with sub1 show ?thesis by blast
  next
    assume "ro \<in> set (promiseSets revs)"
    with pr obtain rp where "rp \<in> set (zip rs' ps')" "ro = fetched st rp"
      by auto
    with sub2 show ?thesis by blast
  qed
qed

lemma swap_pop_nth: "i < j \<Longrightarrow> j < length xs \<Longrightarrow> swap_pop j xs ! i = xs ! i"
  by (simp add: swap_pop_def nth_butlast)

lemma hgcacheStep_missed:
  assumes len: "length (requests s) = length (proxyHashes s)"
    and lt: "pos s < length (requests s)"
    and step: "hgcacheStep st s = Inr (evs, s')"
    and inv: "\<forall>i<pos s. missed st (requests s ! i, proxyHashes s ! i)"
  shows "length (requests s') = length (proxyHashes s')
     \<and> (\<forall>i<pos s'. missed st (requests s' ! i, proxyHashes s' ! i))"
proof -
  from step obtain h where h: "getRequest_BlobImport (requests s ! pos s) = Some h"
    by (auto simp: hgcacheStep_def Let_def split: option.splits)
  show ?thesis
  proof (cases "getBlobFromHgCache st h (proxyHashes s ! pos s)")
    case None
    with step h len lt have s': "s' = s\<lparr>pos := pos s + 1\<rparr>"
      by (simp add: hgcacheStep_def Let_def)
    have "missed st (requests s ! pos s, proxyHashes s ! pos s)"
      using h None by (simp add: missed_def)
    with inv have "\<forall>i<pos s + 1. missed st (requests s ! i, proxyHashes s ! i)"
      by (metis Suc_eq_plus1 less_Suc_eq)
    with s' len show ?thesis by simp
  next
    case (Some b)
    with step h len lt have s': "s' = s\<lparr>requests := swap_pop (pos s) (requests s),
                 proxyHashes := swap_pop (pos s) (proxyHashes s),
                 hitCount := hitCount s + 1\<rparr>"
      by (simp add: hgcacheStep_def Let_def)
    have "\<forall>i<pos s. missed st (swap_pop (pos s) (requests s) ! i,
                                swap_pop (pos s) (proxyHashes s) ! i)"
      using inv len lt by (simp add: swap_pop_nth)
    with s' len lt show ?thesis by (simp add: swap_pop_length)
  qed
qed

lemma hgcacheLoop_missed:
  assumes "hgcacheLoop st s = Inr (evs, s')"
    and "length (requests s) = length (proxyHashes s)"
    and "\<forall>i<pos s. missed st (requests s ! i, proxyHashes s ! i)"
  shows "\<forall>rp\<in>set (zip (requests s') (proxyHashes s')). missed st rp"
  using assms
proof (induction st s arbitrary: evs s' rule: hgcacheLoop.induct)
  case (1 st s)
  show ?case
  proof (cases "pos s < length (requests s)")
    case False
    with "1.prems"(1) have s': "s' = s"
      by (simp add: hgcacheLoop.simps [of st s])
    show ?thesis
    proof
      fix rp assume "rp \<in> set (zip (requests s') (proxyHashes s'))"
      then obtain i where "i < length (requests s)" "rp = (requests s ! i, proxyHashes s ! i)"
        unfolding s' by (auto simp: in_set_zip)
      with False "1.prems"(3) show "missed st rp" by simp
    qed
  next
    case True
    with "1.prems"(1) obtain e1 s1 e2 where
      step: "hgcacheStep st s = Inr (e1, s1)"
      and loop: "hgcacheLoop st s1 = Inr (e2, s')"
      by (auto simp: hgcacheLoop.simps [of st s] split: sum.splits)
    from hgcacheStep_missed [OF "1.prems"(2) True step "1.prems"(3)]
    have l1: "length (requests s1) = length (proxyHashes s1)"
      and m1: "\<forall>i<pos s1. missed st (requests s1 ! i, proxyHashes s1 ! i)"
      by simp_all
    from "1.IH" [OF True step refl loop l1 m1] show ?thesis .
  qed
qed

lemma cacheHit_outcome: "cacheHit st rp ro \<Longrightarrow> ro = outcome st rp"
  by (cases ro) (auto simp: cacheHit_def outcome_def split: option.splits)

lemma cacheHits_outcomes:
  "list_all2 (cacheHit st) hits outs \<Longrightarrow> outs = map (outcome st) hits"
  by (induction rule: list_all2_induct) (simp_all add: cacheHit_outcome)

lemma missed_outcome: "missed st rp \<Longrightarrow> fetched st rp = outcome st rp"
  by (auto simp: missed_def outcome_def split: option.splits)

lemma processBlobImportRequests_outcomes:
  assumes blob: "\<forall>r\<in>set rs. isType_BlobImport r"
    and gb: "HgProxyHash_getBatch st (hashesOf rs) = Inr ps"
    and len: "length ps = length rs"
  shows "\<exists>trace. processBlobImportRequests st rs = Inr trace
      \<and> mset (promiseSets trace) = image_mset (outcome st) (mset (zip rs ps))"
proof -
  from processBlobImportRequests_ok [OF blob gb len] obtain cevs s revs hits where
    cp: "hgcachePass st rs ps = Inr (cevs, s)"
    and ip: "hgImporterPass st (requests s) (proxyHashes s) = Inr revs"
    and res: "processBlobImportRequests st rs = Inr (Call_getBatch (hashesOf rs) # cevs @ revs)"
    and l: "length (requests s) = length (proxyHashes s)"
    and m: "mset (zip rs ps) = mset hits + mset (zip (requests s) (proxyHashes s))"
    and h: "list_all2 (cacheHit st) hits (promiseSets cevs)"
    and pr: "promiseSets revs = map (fetched st) (zip (requests s) (proxyHashes s))"
    by blast
  let ?s0 = "cacheLoopStart rs ps"
  from cp len have loop: "hgcacheLoop st ?s0 = Inr (cevs, s)"
    by (simp add: hgcachePass_def)
  have l0: "length (requests ?s0) = length (proxyHashes ?s0)"
    and m0: "\<forall>i<pos ?s0. missed st (requests ?s0 ! i, proxyHashes ?s0 ! i)"
    using len by (simp_all add: cacheLoopStart_def)
  from hgcacheLoop_missed [OF loop l0 m0]
  have "map (fetched st) (zip (requests s) (proxyHashes s))
      = map (outcome st) (zip (requests s) (proxyHashes s))"
    by (auto simp: missed_outcome)
  with pr have r: "promiseSets revs = map (outcome st) (zip (requests s) (proxyHashes s))"
    by simp
  have c: "promiseSets cevs = map (outcome st) hits"
    using cacheHits_outcomes [OF h] .
  have "promiseSets (Call_getBatch (hashesOf rs) # cevs @ revs)
      = map (outcome st) (hits @ zip (requests s) (proxyHashes s))"
    using c r by (simp add: promiseSets_append)
  then have "mset (promiseSets (Call_getBatch (hashesOf rs) # cevs @ revs))
      = image_mset (outcome st) (mset (zip rs ps))"
    using m by (simp only: mset_map mset_append)
  with res show ?thesis by blast
qed

subsection \<open>Every promise of a blob batch is completed exactly once\<close>

text \<open>
  When the batched lookup answers with a vector whose length differs from the batch, the
  \<^verbatim>\<open>XCHECK_EQ\<close> in front of the hgcache loop stops the process before any promise is
  touched. The theorems below take it as the contract of \<^verbatim>\<open>HgProxyHash::getBatch\<close>
  that it answers with one proxy hash per hash.
\<close>

lemma processBlobImportRequests_xcheck:
  assumes "\<forall>r\<in>set rs. isType_BlobImport r"
    and "HgProxyHash_getBatch st (hashesOf rs) = Inr ps"
    and "length ps \<noteq> length rs"
  shows "processBlobImportRequests st rs = Inl XCheckFailed"
  using collectHashes_blob [OF assms(1)] assms(2,3)
  by (simp add: processBlobImportRequests_def hgcachePass_def)

text \<open>
  Claim C1. For every batch of blob import requests, \<^verbatim>\<open>processBlobImportRequests\<close>
  returns, and the requests whose promises are completed along its trace are, counted with
  multiplicity, exactly the requests of the batch: each promise is completed once. When
  the proxy-hash lookup succeeds, the trace is the lookup, then the events of the hgcache
  pass, then those of the importer pass; the requests completed in the hgcache pass
  together with the requests left in the vector after it make up the batch, and the
  importer pass completes exactly the requests left in the vector, each once, in order.
  The batch lookup is assumed to answer with as many proxy hashes as it was given hashes.
\<close>

theorem C1_each_promise_resolved_exactly_once:
  assumes blob: "\<forall>r\<in>set rs. isType_BlobImport r"
    and contract: "\<forall>ps. HgProxyHash_getBatch st (hashesOf rs) = Inr ps \<longrightarrow> length ps = length rs"
  shows "\<exists>trace. processBlobImportRequests st rs = Inr trace
      \<and> mset (map fst (promiseSets trace)) = mset rs
      \<and> (\<forall>ps. HgProxyHash_getBatch st (hashesOf rs) = Inr ps \<longrightarrow>
            (\<exists>cevs s revs.
                hgcachePass st rs ps = Inr (cevs, s)
              \<and> hgImporterPass st (requests s) (proxyHashes s) = Inr revs
              \<and> trace = Call_getBatch (hashesOf rs) # cevs @ revs
              \<and> mset (map fst (promiseSets cevs)) + mset (requests s) = mset rs
              \<and> map fst (promiseSets revs) = requests s))"
proof (cases "HgProxyHash_getBatch st (hashesOf rs)")
  case (Inl ex)
  from processBlobImportRequests_failed_batch [OF blob Inl]
  have "processBlobImportRequests st rs
       = Inr (Call_getBatch (hashesOf rs) # map (\<lambda>r. PromiseSet r (Inl ex)) rs)" .
  moreover have "mset (map fst (promiseSets
       (Call_getBatch (hashesOf rs) # map (\<lambda>r. PromiseSet r (Inl ex)) rs))) = mset rs"
    by (simp add: promiseSets_map_PromiseSet comp_def)
  ultimately show ?thesis using Inl by simp
next
  case (Inr ps)
  with contract have len: "length ps = length rs" by simp
  from processBlobImportRequests_ok [OF blob Inr len] obtain cevs s revs hits where
    cp: "hgcachePass st rs ps = Inr (cevs, s)"
    and ip: "hgImporterPass st (requests s) (proxyHashes s) = Inr revs"
    and res: "processBlobImportRequests st rs = Inr (Call_getBatch (hashesOf rs) # cevs @ revs)"
    and l: "length (requests s) = length (proxyHashes s)"
    and m: "mset (zip rs ps) = mset hits + mset (zip (requests s) (proxyHashes s))"
    and h: "list_all2 (cacheHit st) hits (promiseSets cevs)"
    and pr: "promiseSets revs = map (fetched st) (zip (requests s) (proxyHashes s))"
    by blast
  have "mset (map fst (zip rs ps))
      = mset (map fst hits) + mset (map fst (zip (requests s) (proxyHashes s)))"
    using m by (metis image_mset_union mset_map)
  then have part: "mset rs = mset (map fst hits) + mset (requests s)"
    using len l by simp
  have c: "map fst (promiseSets cevs) = map fst hits"
    using cacheHit_fst [OF h] .
  have "map fst (promiseSets revs) = map fst (zip (requests s) (proxyHashes s))"
    by (simp only: pr map_fst_fetched)
  then have r: "map fst (promiseSets revs) = requests s"
    using l by simp
  have cm: "mset (map fst (promiseSets cevs)) + mset (requests s) = mset rs"
    by (simp only: c part)
  let ?trace = "Call_getBatch (hashesOf rs) # cevs @ revs"
  have "map fst (promiseSets ?trace) = map fst (promiseSets cevs) @ requests s"
    using r by (simp add: promiseSets_append)
  then have tot: "mset (map fst (promiseSets ?trace)) = mset rs"
    using cm by (simp only: mset_append)
  have "\<exists>cevs' s' revs'.
          hgcachePass st rs ps = Inr (cevs', s')
        \<and> hgImporterPass st (requests s') (proxyHashes s') = Inr revs'
        \<and> ?trace = Call_getBatch (hashesOf rs) # cevs' @ revs'
        \<and> mset (map fst (promiseSets cevs')) + mset (requests s') = mset rs
        \<and> map fst (promiseSets revs') = requests s'"
    using cp ip cm r by blast
  then have "\<forall>ps'. HgProxyHash_getBatch st (hashesOf rs) = Inr ps' \<longrightarrow>
      (\<exists>cevs' s' revs'.
          hgcachePass st rs ps' = Inr (cevs', s')
        \<and> hgImporterPass st (requests s') (proxyHashes s') = Inr revs'
        \<and> ?trace = Call_getBatch (hashesOf rs) # cevs' @ revs'
        \<and> mset (map fst (promiseSets cevs')) + mset (requests s') = mset rs
        \<and> map fst (promiseSets revs') = requests s')"
    using Inr by simp
  with res tot show ?thesis by blast
qed

theorem C1_witness:
  "list_all isType_BlobImport scenarioBatch
   \<and> (\<exists>trace. processBlobImportRequests scenarioStores scenarioBatch = Inr trace
         \<and> mset (map fst (promiseSets trace)) = mset scenarioBatch)"
proof -
  have b: "\<forall>r\<in>set scenarioBatch. isType_BlobImport r"
    by (simp add: scenarioBatch_def blobRequest_def)
  have c: "\<forall>ps. HgProxyHash_getBatch scenarioStores (hashesOf scenarioBatch) = Inr ps
      \<longrightarrow> length ps = length scenarioBatch"
    by (auto simp: scenarioStores_def scenarioBatch_def hashesOf_def blobRequest_def
        map_filter_simps)
  from C1_each_promise_resolved_exactly_once [OF b c] obtain trace where
    "processBlobImportRequests scenarioStores scenarioBatch = Inr trace"
    "mset (map fst (promiseSets trace)) = mset scenarioBatch"
    by blast
  with b show ?thesis
    by (auto simp: list_all_iff)
qed

subsection \<open>Failure of the batch lookup and failures of single fetches\<close>

text \<open>
  Claim C2. For a batch of blob import requests: if the batched proxy-hash lookup fails
  with an exception, the trace of \<^verbatim>\<open>processBlobImportRequests\<close> is the lookup followed
  by one completion per request with that exception, and nothing else, so no hgcache read
  and no importer fetch is made. If the lookup succeeds (with one proxy hash per
  request), then a request whose promise receives an exception is paired with a proxy hash
  whose own fetch failed with that exception, and a request whose promise receives a value
  receives the blob of its own fetch or of its own hgcache entry. Conversely every
  request that the hgcache does not answer and whose own fetch fails has its promise
  completed with the exception of that fetch. Altogether the promise completions of the
  run are, with multiplicity, one per pair of a request and its proxy hash: the blob of
  the hgcache where it holds one, and otherwise the result of the fetch with that proxy
  hash, be it a blob or an error.
\<close>

theorem C2_batch_lookup_failure_is_wholesale_fetch_errors_are_not:
  assumes blob: "\<forall>r\<in>set rs. isType_BlobImport r"
  shows "(\<forall>ex. HgProxyHash_getBatch st (hashesOf rs) = Inl ex \<longrightarrow>
            processBlobImportRequests st rs
              = Inr (Call_getBatch (hashesOf rs) # map (\<lambda>r. PromiseSet r (Inl ex)) rs))
       \<and> (\<forall>ps. HgProxyHash_getBatch st (hashesOf rs) = Inr ps \<and> length ps = length rs \<longrightarrow>
            (\<exists>trace. processBlobImportRequests st rs = Inr trace
               \<and> (\<forall>r ex. (r, Inl ex) \<in> set (promiseSets trace) \<longrightarrow>
                     (\<exists>p. (r, p) \<in> set (zip rs ps)
                        \<and> fetchBlobFromHgImporter st p = Inl ex))
               \<and> (\<forall>r v. (r, Inr v) \<in> set (promiseSets trace) \<longrightarrow>
                     (\<exists>p b. (r, p) \<in> set (zip rs ps) \<and> v = BlobResponse b
                        \<and> (fetchBlobFromHgImporter st p = Inr b
                           \<or> (\<exists>h. getRequest_BlobImport r = Some h
                                  \<and> getBlobFromHgCache st h p = Some b))))
               \<and> (\<forall>r p h ex. (r, p) \<in> set (zip rs ps)
                       \<and> getRequest_BlobImport r = Some h
                       \<and> getBlobFromHgCache st h p = None
                       \<and> fetchBlobFromHgImporter st p = Inl ex \<longrightarrow>
                     (r, Inl ex) \<in> set (promiseSets trace))
               \<and> mset (promiseSets trace) = image_mset (outcome st) (mset (zip rs ps))))"
proof (intro conjI allI impI)
  fix ex assume "HgProxyHash_getBatch st (hashesOf rs) = Inl ex"
  from processBlobImportRequests_failed_batch [OF blob this]
  show "processBlobImportRequests st rs
      = Inr (Call_getBatch (hashesOf rs) # map (\<lambda>r. PromiseSet r (Inl ex)) rs)" .
next
  fix ps assume "HgProxyHash_getBatch st (hashesOf rs) = Inr ps \<and> length ps = length rs"
  then have gb: "HgProxyHash_getBatch st (hashesOf rs) = Inr ps" and len: "length ps = length rs"
    by simp_all
  from processBlobImportRequests_ok [OF blob gb len] obtain cevs s revs hits where
    cp: "hgcachePass st rs ps = Inr (cevs, s)"
    and ip: "hgImporterPass st (requests s) (proxyHashes s) = Inr revs"
    and res: "processBlobImportRequests st rs = Inr (Call_getBatch (hashesOf rs) # cevs @ revs)"
    and l: "length (requests s) = length (proxyHashes s)"
    and m: "mset (zip rs ps) = mset hits + mset (zip (requests s) (proxyHashes s))"
    and h: "list_all2 (cacheHit st) hits (promiseSets cevs)"
    and pr: "promiseSets revs = map (fetched st) (zip (requests s) (proxyHashes s))"
    by blast
  let ?trace = "Call_getBatch (hashesOf rs) # cevs @ revs"
  note own = promiseSets_trace_cases [OF m h pr]
  have exn: "\<forall>r ex. (r, Inl ex) \<in> set (promiseSets ?trace) \<longrightarrow>
      (\<exists>p. (r, p) \<in> set (zip rs ps) \<and> fetchBlobFromHgImporter st p = Inl ex)"
  proof (intro allI impI)
    fix r ex assume "(r, Inl ex) \<in> set (promiseSets ?trace)"
    from own [OF this] obtain r' p where
      mem: "(r', p) \<in> set (zip rs ps)"
      and c: "cacheHit st (r', p) (r, Inl ex) \<or> (r, Inl ex) = fetched st (r', p)"
      by auto
    from c have "r' = r \<and> fetchBlobFromHgImporter st p = Inl ex"
      by (auto simp: cacheHit_def fetched_def split: option.splits sum.splits)
    with mem show "\<exists>p. (r, p) \<in> set (zip rs ps) \<and> fetchBlobFromHgImporter st p = Inl ex"
      by blast
  qed
  have val: "\<forall>r v. (r, Inr v) \<in> set (promiseSets ?trace) \<longrightarrow>
      (\<exists>p b. (r, p) \<in> set (zip rs ps) \<and> v = BlobResponse b
         \<and> (fetchBlobFromHgImporter st p = Inr b
            \<or> (\<exists>h. getRequest_BlobImport r = Some h \<and> getBlobFromHgCache st h p = Some b)))"
  proof (intro allI impI)
    fix r v assume "(r, Inr v) \<in> set (promiseSets ?trace)"
    from own [OF this] obtain r' p where
      mem: "(r', p) \<in> set (zip rs ps)"
      and c: "cacheHit st (r', p) (r, Inr v) \<or> (r, Inr v) = fetched st (r', p)"
      by auto
    from c have "r' = r \<and> (\<exists>b. v = BlobResponse b
         \<and> (fetchBlobFromHgImporter st p = Inr b
            \<or> (\<exists>h. getRequest_BlobImport r = Some h \<and> getBlobFromHgCache st h p = Some b)))"
      by (auto simp: cacheHit_def fetched_def split: option.splits sum.splits)
    with mem show "\<exists>p b. (r, p) \<in> set (zip rs ps) \<and> v = BlobResponse b
         \<and> (fetchBlobFromHgImporter st p = Inr b
            \<or> (\<exists>h. getRequest_BlobImport r = Some h \<and> getBlobFromHgCache st h p = Some b))"
      by blast
  qed
  from processBlobImportRequests_outcomes [OF blob gb len] res
  have out: "mset (promiseSets ?trace) = image_mset (outcome st) (mset (zip rs ps))"
    by auto
  have reach: "\<forall>r p h ex. (r, p) \<in> set (zip rs ps)
        \<and> getRequest_BlobImport r = Some h
        \<and> getBlobFromHgCache st h p = None
        \<and> fetchBlobFromHgImporter st p = Inl ex \<longrightarrow>
      (r, Inl ex) \<in> set (promiseSets ?trace)"
  proof (intro allI impI)
    fix r p h ex
    assume a: "(r, p) \<in> set (zip rs ps)
        \<and> getRequest_BlobImport r = Some h
        \<and> getBlobFromHgCache st h p = None
        \<and> fetchBlobFromHgImporter st p = Inl ex"
    then have "outcome st (r, p) = (r, Inl ex)"
      by (simp add: outcome_def fetched_def)
    moreover from a have "outcome st (r, p) \<in># image_mset (outcome st) (mset (zip rs ps))"
      by simp
    ultimately have "(r, Inl ex) \<in># mset (promiseSets ?trace)"
      by (simp only: out)
    then show "(r, Inl ex) \<in> set (promiseSets ?trace)"
      by simp
  qed
  from res exn val reach out
  show "\<exists>trace. processBlobImportRequests st rs = Inr trace
      \<and> (\<forall>r ex. (r, Inl ex) \<in> set (promiseSets trace) \<longrightarrow>
            (\<exists>p. (r, p) \<in> set (zip rs ps) \<and> fetchBlobFromHgImporter st p = Inl ex))
      \<and> (\<forall>r v. (r, Inr v) \<in> set (promiseSets trace) \<longrightarrow>
            (\<exists>p b. (r, p) \<in> set (zip rs ps) \<and> v = BlobResponse b
               \<and> (fetchBlobFromHgImporter st p = Inr b
                  \<or> (\<exists>h. getRequest_BlobImport r = Some h
                         \<and> getBlobFromHgCache st h p = Some b))))
      \<and> (\<forall>r p h ex. (r, p) \<in> set (zip rs ps)
              \<and> getRequest_BlobImport r = Some h
              \<and> getBlobFromHgCache st h p = None
              \<and> fetchBlobFromHgImporter st p = Inl ex \<longrightarrow>
            (r, Inl ex) \<in> set (promiseSets trace))
      \<and> mset (promiseSets trace) = image_mset (outcome st) (mset (zip rs ps))"
    by blast
qed

theorem C2_witness:
  "processBlobImportRequests failingStores scenarioBatch
     = Inr [Call_getBatch [1, 2, 3],
            PromiseSet (blobRequest 1) (Inl (Exception ''no proxy hash'')),
            PromiseSet (blobRequest 2) (Inl (Exception ''no proxy hash'')),
            PromiseSet (blobRequest 3) (Inl (Exception ''no proxy hash''))]
   \<and> (\<exists>p. (blobRequest 3, p) \<in> set (zip scenarioBatch (map HgProxyHash [1, 2, 3]))
         \<and> fetchBlobFromHgImporter scenarioStores p = Inl (Exception ''fetch failed''))
   \<and> (\<exists>trace. processBlobImportRequests scenarioStores scenarioBatch = Inr trace
         \<and> (blobRequest 3, Inl (Exception ''fetch failed'')) \<in> set (promiseSets trace)
         \<and> (blobRequest 1, Inr (BlobResponse ''imported'')) \<in> set (promiseSets trace)
         \<and> (blobRequest 2, Inr (BlobResponse ''cached'')) \<in> set (promiseSets trace))"
proof -
  have b: "\<forall>r\<in>set scenarioBatch. isType_BlobImport r"
    by (simp add: scenarioBatch_def blobRequest_def)
  have hs: "hashesOf scenarioBatch = [1, 2, 3]"
    by (simp add: hashesOf_def scenarioBatch_def blobRequest_def map_filter_simps)
  have f: "HgProxyHash_getBatch failingStores (hashesOf scenarioBatch)
      = Inl (Exception ''no proxy hash'')"
    by (simp add: failingStores_def)
  have g: "HgProxyHash_getBatch scenarioStores (hashesOf scenarioBatch)
        = Inr (map HgProxyHash [1, 2, 3])
      \<and> length (map HgProxyHash [1, 2, 3]) = length scenarioBatch"
  proof
    show "HgProxyHash_getBatch scenarioStores (hashesOf scenarioBatch)
        = Inr (map HgProxyHash [1, 2, 3])"
      by (simp add: scenarioStores_def hs)
    show "length (map HgProxyHash [1, 2, 3]) = length scenarioBatch"
      by (simp add: scenarioBatch_def)
  qed
  note fail = C2_batch_lookup_failure_is_wholesale_fetch_errors_are_not
    [OF b, of failingStores, THEN conjunct1, rule_format, OF f]
  note ok = C2_batch_lookup_failure_is_wholesale_fetch_errors_are_not
    [OF b, of scenarioStores, THEN conjunct2, rule_format, OF g]
  have first: "processBlobImportRequests failingStores scenarioBatch
     = Inr [Call_getBatch [1, 2, 3],
            PromiseSet (blobRequest 1) (Inl (Exception ''no proxy hash'')),
            PromiseSet (blobRequest 2) (Inl (Exception ''no proxy hash'')),
            PromiseSet (blobRequest 3) (Inl (Exception ''no proxy hash''))]"
    using fail by (simp add: hs) (simp add: scenarioBatch_def)
  have run: "processBlobImportRequests scenarioStores scenarioBatch = Inr
     [Call_getBatch [1, 2, 3],
      Call_getBlobFromHgCache 1 (HgProxyHash 1),
      Call_getBlobFromHgCache 2 (HgProxyHash 2),
      PromiseSet (blobRequest 2) (Inr (BlobResponse ''cached'')),
      Stats_addValue,
      Call_getBlobFromHgCache 3 (HgProxyHash 3),
      Call_fetchBlobFromHgImporter (HgProxyHash 1),
      Call_fetchBlobFromHgImporter (HgProxyHash 3),
      Stats_addValue,
      PromiseSet (blobRequest 1) (Inr (BlobResponse ''imported'')),
      Stats_addValue,
      PromiseSet (blobRequest 3) (Inl (Exception ''fetch failed''))]"
    by code_simp
  from ok obtain trace where
    t: "processBlobImportRequests scenarioStores scenarioBatch = Inr trace"
    and e: "\<forall>r ex. (r, Inl ex) \<in> set (promiseSets trace) \<longrightarrow>
      (\<exists>p. (r, p) \<in> set (zip scenarioBatch (map HgProxyHash [1, 2, 3]))
         \<and> fetchBlobFromHgImporter scenarioStores p = Inl ex)"
    and reach: "\<forall>r p h ex. (r, p) \<in> set (zip scenarioBatch (map HgProxyHash [1, 2, 3]))
        \<and> getRequest_BlobImport r = Some h
        \<and> getBlobFromHgCache scenarioStores h p = None
        \<and> fetchBlobFromHgImporter scenarioStores p = Inl ex \<longrightarrow>
      (r, Inl ex) \<in> set (promiseSets trace)"
    and out: "mset (promiseSets trace)
      = image_mset (outcome scenarioStores)
          (mset (zip scenarioBatch (map HgProxyHash [1, 2, 3])))"
    by blast
  have "(blobRequest 3, HgProxyHash 3) \<in> set (zip scenarioBatch (map HgProxyHash [1, 2, 3]))
      \<and> getRequest_BlobImport (blobRequest 3) = Some 3
      \<and> getBlobFromHgCache scenarioStores 3 (HgProxyHash 3) = None
      \<and> fetchBlobFromHgImporter scenarioStores (HgProxyHash 3)
          = Inl (Exception ''fetch failed'')"
    by (simp add: scenarioBatch_def blobRequest_def scenarioStores_def)
  with reach have third:
    "(blobRequest 3, Inl (Exception ''fetch failed'')) \<in> set (promiseSets trace)"
    by blast
  have "mset (promiseSets trace)
      = {#(blobRequest 1, Inr (BlobResponse ''imported'')),
          (blobRequest 2, Inr (BlobResponse ''cached'')),
          (blobRequest 3, Inl (Exception ''fetch failed''))#}"
    unfolding out
    by (simp add: scenarioBatch_def blobRequest_def scenarioStores_def outcome_def
        fetched_def)
  then have "set_mset (mset (promiseSets trace))
      = set_mset {#(blobRequest 1, Inr (BlobResponse ''imported'')),
          (blobRequest 2, Inr (BlobResponse ''cached'')),
          (blobRequest 3, Inl (Exception ''fetch failed''))#}"
    by (rule arg_cong)
  then have others:
    "(blobRequest 1, Inr (BlobResponse ''imported'')) \<in> set (promiseSets trace)
     \<and> (blobRequest 2, Inr (BlobResponse ''cached'')) \<in> set (promiseSets trace)"
    by simp
  from t run have "(blobRequest 3, Inl (Exception ''fetch failed'')) \<in> set (promiseSets trace)"
    by auto
  with e have "\<exists>p. (blobRequest 3, p) \<in> set (zip scenarioBatch (map HgProxyHash [1, 2, 3]))
      \<and> fetchBlobFromHgImporter scenarioStores p = Inl (Exception ''fetch failed'')"
    by blast
  with first t third others show ?thesis by blast
qed

subsection \<open>The two vectors stay aligned\<close>

text \<open>
  Claim C3. Start the hgcache loop on a batch of blob requests and a vector of proxy
  hashes of the same length (the \<^verbatim>\<open>XCHECK_EQ\<close> in front of the loop). In every state the
  loop goes through, the two vectors have the same length, and the pairs of a request and
  the proxy hash at the same position are, with multiplicity, pairs of the original
  vectors: every position holds a request together with its own proxy hash. The loop
  ends; the importer loop then calls \<^verbatim>\<open>fetchBlobFromHgImporter\<close> once per remaining
  position, with the proxy hash at that position, and hands the result to the request at
  that position.
\<close>

theorem C3_request_and_proxy_vectors_stay_aligned:
  assumes len: "length rs = length ps"
    and blob: "\<forall>r\<in>set rs. isType_BlobImport r"
  shows "(\<forall>s. hgcacheReach st (cacheLoopStart rs ps) s \<longrightarrow>
            length (requests s) = length (proxyHashes s)
          \<and> mset (zip (requests s) (proxyHashes s)) \<subseteq># mset (zip rs ps)
          \<and> (\<forall>i<length (requests s). (requests s ! i, proxyHashes s ! i) \<in> set (zip rs ps)))
       \<and> (\<exists>cevs s. hgcachePass st rs ps = Inr (cevs, s)
            \<and> hgcacheReach st (cacheLoopStart rs ps) s
            \<and> fetchLoop st (requests s) (proxyHashes s)
                = Inr (map Call_fetchBlobFromHgImporter (proxyHashes s),
                       map (\<lambda>(r, p). (r, fetchBlobFromHgImporter st p))
                         (zip (requests s) (proxyHashes s))))"
proof (intro conjI allI impI)
  fix s assume r: "hgcacheReach st (cacheLoopStart rs ps) s"
  have l0: "length (requests (cacheLoopStart rs ps)) = length (proxyHashes (cacheLoopStart rs ps))"
    using len by (simp add: cacheLoopStart_def)
  from hgcacheReach_inv [OF r l0]
  have l: "length (requests s) = length (proxyHashes s)"
    and sub: "mset (zip (requests s) (proxyHashes s)) \<subseteq># mset (zip rs ps)"
    by (simp_all add: cacheLoopStart_def)
  show "length (requests s) = length (proxyHashes s)" by (rule l)
  show "mset (zip (requests s) (proxyHashes s)) \<subseteq># mset (zip rs ps)" by (rule sub)
  fix i assume "i < length (requests s)"
  then have "(requests s ! i, proxyHashes s ! i) \<in> set (zip (requests s) (proxyHashes s))"
    using l by (metis length_zip min.idem nth_mem nth_zip)
  with sub show "(requests s ! i, proxyHashes s ! i) \<in> set (zip rs ps)"
    by (metis mset_subset_eqD set_mset_mset)
next
  let ?s0 = "cacheLoopStart rs ps"
  have l0: "length (requests ?s0) = length (proxyHashes ?s0)"
    and b0: "\<forall>r\<in>set (requests ?s0). isType_BlobImport r"
    using blob len by (simp_all add: cacheLoopStart_def)
  from hgcacheLoop_ok [OF l0 b0, of st] obtain cevs s where
    loop: "hgcacheLoop st ?s0 = Inr (cevs, s)"
    and l: "length (requests s) = length (proxyHashes s)"
    and r: "hgcacheReach st ?s0 s"
    by blast
  have "hgcachePass st rs ps = Inr (cevs, s)"
    using loop len by (simp add: hgcachePass_def cacheLoopStart_def)
  with r fetchLoop_ok [OF l, of st]
  show "\<exists>cevs s. hgcachePass st rs ps = Inr (cevs, s)
      \<and> hgcacheReach st (cacheLoopStart rs ps) s
      \<and> fetchLoop st (requests s) (proxyHashes s)
          = Inr (map Call_fetchBlobFromHgImporter (proxyHashes s),
                 map (\<lambda>(r, p). (r, fetchBlobFromHgImporter st p))
                   (zip (requests s) (proxyHashes s)))"
    by blast
qed

theorem C3_witness:
  "length scenarioBatch = length (map HgProxyHash [1, 2, 3])
   \<and> list_all isType_BlobImport scenarioBatch
   \<and> (\<exists>cevs s. hgcachePass scenarioStores scenarioBatch (map HgProxyHash [1, 2, 3])
                   = Inr (cevs, s)
         \<and> length (requests s) = length (proxyHashes s)
         \<and> mset (zip (requests s) (proxyHashes s))
             \<subseteq># mset (zip scenarioBatch (map HgProxyHash [1, 2, 3])))"
proof -
  have l: "length scenarioBatch = length (map HgProxyHash [1, 2, 3])"
    by (simp add: scenarioBatch_def)
  have b: "\<forall>r\<in>set scenarioBatch. isType_BlobImport r"
    by (simp add: scenarioBatch_def blobRequest_def)
  note aligned = C3_request_and_proxy_vectors_stay_aligned [OF l b, of scenarioStores]
  from aligned obtain cevs s where
    "hgcachePass scenarioStores scenarioBatch (map HgProxyHash [1, 2, 3]) = Inr (cevs, s)"
    "hgcacheReach scenarioStores (cacheLoopStart scenarioBatch (map HgProxyHash [1, 2, 3])) s"
    by blast
  with aligned l b show ?thesis
    by (auto simp: list_all_iff)
qed

section \<open>Properties of the queued backing store\<close>

lemma mset_insertByPriority: "mset (insertByPriority r xs) = add_mset r (mset xs)"
  by (induction xs) simp_all

lemma queued_enqueue: "mset (queued (enqueue r q)) = add_mset r (mset (queued q))"
  by (simp add: enqueue_def mset_insertByPriority)

lemma running_enqueue: "running (enqueue r q) = running q"
  by (simp add: enqueue_def)

subsection \<open>The fast path of getBlob\<close>

text \<open>
  Claim C4. For every hash, priority and store, \<^verbatim>\<open>getBlob\<close> first constructs the proxy
  hash of the hash and looks the blob up in the local data pack with it, and does nothing
  else before (the two calls are what it adds to the trace). On a hit it returns a future
  that is already resolved with that blob, and the queue, the promise counter and the
  watch list are as before: nothing is enqueued. On a miss it returns the future of a new
  \<^verbatim>\<open>BlobImport\<close> request for that hash and priority, and the queue is the old queue with
  that one request enqueued: its requests are the old ones and that request, once.
\<close>

theorem C4_getBlob_local_hit_or_single_enqueue:
  "(\<forall>blob. getBlobLocal st id' (HgProxyHash_new st id') = Some blob \<longrightarrow>
       fst (getBlob st id' prio s) = Ready blob
     \<and> queue (snd (getBlob st id' prio s)) = queue s
     \<and> nextPromise (snd (getBlob st id' prio s)) = nextPromise s
     \<and> pendingImportBlobWatches (snd (getBlob st id' prio s)) = pendingImportBlobWatches s)
   \<and> (getBlobLocal st id' (HgProxyHash_new st id') = None \<longrightarrow>
       (\<exists>req. req = \<lparr>request = BlobImport id', priority = prio, promise = nextPromise s\<rparr>
          \<and> fst (getBlob st id' prio s) = Awaiting (promise req)
          \<and> queue (snd (getBlob st id' prio s)) = enqueue req (queue s)
          \<and> mset (queued (queue (snd (getBlob st id' prio s))))
              = add_mset req (mset (queued (queue s)))))
   \<and> events (snd (getBlob st id' prio s))
       = events s @ [Call_HgProxyHash id', Call_getBlobLocal id' (HgProxyHash_new st id')]"
  by (cases "getBlobLocal st id' (HgProxyHash_new st id')")
     (simp_all add: getBlob_def Let_def makeBlobImportRequest_def queued_enqueue)

theorem C4_witness:
  "fst (getBlob scenarioStores 2 kNormal (newHgQueuedBackingStore 2)) = Ready ''cached''
   \<and> queue (snd (getBlob scenarioStores 2 kNormal (newHgQueuedBackingStore 2)))
       = queue (newHgQueuedBackingStore 2)
   \<and> fst (getBlob scenarioStores 1 kNormal (newHgQueuedBackingStore 2)) = Awaiting 0
   \<and> queued (queue (snd (getBlob scenarioStores 1 kNormal (newHgQueuedBackingStore 2))))
       = [\<lparr>request = BlobImport 1, priority = kNormal, promise = 0\<rparr>]"
proof -
  have hit: "getBlobLocal scenarioStores 2 (HgProxyHash_new scenarioStores 2) = Some ''cached''"
    by (simp add: scenarioStores_def)
  have miss: "getBlobLocal scenarioStores 1 (HgProxyHash_new scenarioStores 1) = None"
    by (simp add: scenarioStores_def)
  note at2 = C4_getBlob_local_hit_or_single_enqueue
    [of scenarioStores 2 kNormal "newHgQueuedBackingStore 2", THEN conjunct1, rule_format, OF hit]
  note at1 = C4_getBlob_local_hit_or_single_enqueue
    [of scenarioStores 1 kNormal "newHgQueuedBackingStore 2",
     THEN conjunct2, THEN conjunct1, rule_format, OF miss]
  from at1 have
    "fst (getBlob scenarioStores 1 kNormal (newHgQueuedBackingStore 2)) = Awaiting 0"
    "queued (queue (snd (getBlob scenarioStores 1 kNormal (newHgQueuedBackingStore 2))))
       = [\<lparr>request = BlobImport 1, priority = kNormal, promise = 0\<rparr>]"
    by (simp_all add: newHgQueuedBackingStore_def enqueue_def)
  with at2 show ?thesis by simp
qed

subsection \<open>The priority of a prefetch\<close>

text \<open>
  Claim C10. For every list of hashes and every store, \<^verbatim>\<open>prefetchBlobs\<close> enqueues one
  \<^verbatim>\<open>Prefetch\<close> request for that list, and the priority of that request is
  \<^verbatim>\<open>ImportPriority::kNormal()\<close>; it returns the future of that request. The function
  has no priority parameter, unlike \<^verbatim>\<open>getBlob\<close> and \<^verbatim>\<open>getTree\<close>, so the priority does
  not depend on anything the caller passes.
\<close>

theorem C10_prefetchBlobs_always_enqueues_with_kNormal:
  "\<exists>req. req = \<lparr>request = Prefetch ids, priority = kNormal, promise = nextPromise s\<rparr>
     \<and> fst (prefetchBlobs ids s) = Awaiting (promise req)
     \<and> queue (snd (prefetchBlobs ids s)) = enqueue req (queue s)
     \<and> mset (queued (queue (snd (prefetchBlobs ids s))))
         = add_mset req (mset (queued (queue s)))"
  by (simp add: prefetchBlobs_def Let_def makePrefetchRequest_def queued_enqueue)

theorem C10_witness:
  "fst (prefetchBlobs [1, 2] (newHgQueuedBackingStore 2)) = Awaiting 0
   \<and> queued (queue (snd (prefetchBlobs [1, 2] (newHgQueuedBackingStore 2))))
       = [\<lparr>request = Prefetch [1, 2], priority = kNormal, promise = 0\<rparr>]"
  using C10_prefetchBlobs_always_enqueues_with_kNormal [of "[1, 2]" "newHgQueuedBackingStore 2"]
  by (simp add: newHgQueuedBackingStore_def enqueue_def)

subsection \<open>The watch lists\<close>

text \<open>
  Claim C9. For each of the stages \<^verbatim>\<open>PENDING\<close> and \<^verbatim>\<open>LIVE\<close> and each of the objects
  \<^verbatim>\<open>BLOB\<close>, \<^verbatim>\<open>TREE\<close> and \<^verbatim>\<open>PREFETCH\<close>, \<^verbatim>\<open>getImportWatches\<close> returns the watch
  list of that stage and object (the store's own list for a pending import, the backing
  store's list for a live one), and \<^verbatim>\<open>getPendingImportWatches\<close> returns the store's own
  list of that object; neither reaches \<^verbatim>\<open>EDEN_BUG\<close>. The two lemmas after the theorem
  show the values on which they do.
\<close>

theorem C9_getImportWatches_never_reaches_EDEN_BUG:
  assumes "stage \<in> {PENDING, LIVE}" and "object \<in> {BLOB, TREE, PREFETCH}"
  shows "getPendingImportWatches s object
           = Inr (if object = BLOB then pendingImportBlobWatches s
                  else if object = TREE then pendingImportTreeWatches s
                  else pendingImportPrefetchWatches s)
       \<and> getImportWatches st s stage object
           = Inr (if stage = LIVE then getLiveImportWatches st object
                  else if object = BLOB then pendingImportBlobWatches s
                  else if object = TREE then pendingImportTreeWatches s
                  else pendingImportPrefetchWatches s)
       \<and> (\<forall>msg. getPendingImportWatches s object \<noteq> Inl (EdenBug msg))
       \<and> (\<forall>msg. getImportWatches st s stage object \<noteq> Inl (EdenBug msg))"
  using assms by (auto simp: getImportWatches_def getPendingImportWatches_def)

theorem C9_witness:
  "PENDING \<in> {PENDING, LIVE} \<and> BLOB \<in> {BLOB, TREE, PREFETCH}
   \<and> getImportWatches scenarioStores
         (snd (getBlob scenarioStores 1 kNormal (newHgQueuedBackingStore 2))) PENDING BLOB
       = Inr [0]"
proof -
  have a: "PENDING \<in> {PENDING, LIVE}" and b: "BLOB \<in> {BLOB, TREE, PREFETCH}"
    by simp_all
  from C9_getImportWatches_never_reaches_EDEN_BUG [OF a b, of
      "snd (getBlob scenarioStores 1 kNormal (newHgQueuedBackingStore 2))" scenarioStores]
  show ?thesis
    by (simp add: getBlob_def scenarioStores_def newHgQueuedBackingStore_def Let_def
        makeBlobImportRequest_def)
qed

lemma getImportWatches_other_stage:
  "getImportWatches st s (RequestStage_other v) object = Inl (EdenBug ''unknown hg import stage'')"
  by (simp add: getImportWatches_def)

lemma getPendingImportWatches_other_object:
  "getPendingImportWatches s (HgImportObject_other v)
     = Inl (EdenBug ''unknown hg import object type'')"
  by (simp add: getPendingImportWatches_def)

section \<open>Properties of the queue and the workers\<close>

lemma sameVariant_refl: "sameVariant r r"
  by (simp add: sameVariant_def)

lemma dequeue_batch:
  assumes "dequeue n q = Some (batch, q')" and "batch \<noteq> []"
  shows "running q \<and> queued q \<noteq> []
     \<and> batch = take n (takeWhile (sameVariant (hd (queued q))) (queued q))
     \<and> q' = q\<lparr>queued := drop (length batch) (queued q)\<rparr>
     \<and> hd batch = hd (queued q)"
proof -
  from assms have r: "running q"
    by (auto simp: dequeue_def split: if_splits)
  with assms obtain first rest where q: "queued q = first # rest"
    by (cases "queued q") (auto simp: dequeue_def)
  with r assms have b: "batch = take n (takeWhile (sameVariant first) (queued q))"
    and q': "q' = q\<lparr>queued := drop (length batch) (queued q)\<rparr>"
    by (auto simp: dequeue_def Let_def)
  from b q assms(2) have "hd batch = first"
    by (cases n) (simp_all add: sameVariant_refl)
  with r q b q' show ?thesis by simp
qed

lemma dequeue_sameVariant:
  assumes "dequeue n q = Some (batch, q')" and "batch \<noteq> []"
  shows "\<forall>r\<in>set batch. sameVariant (hd batch) r"
proof
  fix r assume "r \<in> set batch"
  with dequeue_batch [OF assms]
  have "r \<in> set (takeWhile (sameVariant (hd batch)) (queued q))"
    by (metis in_set_takeD)
  then show "sameVariant (hd batch) r"
    by (rule set_takeWhileD [THEN conjunct2])
qed

lemma isType_cases:
  "isType_BlobImport r \<or> isType_TreeImport r \<or> isType_Prefetch r"
  by (cases "request r") simp_all

lemma isType_exclusive:
  "\<not> (isType_BlobImport r \<and> isType_TreeImport r)"
  "\<not> (isType_BlobImport r \<and> isType_Prefetch r)"
  "\<not> (isType_TreeImport r \<and> isType_Prefetch r)"
  by (cases "request r"; simp)+

subsection \<open>Batches are of one variant and go to one processor\<close>

text \<open>
  Claim C5. Every non-empty batch that \<^verbatim>\<open>dequeue\<close> returns consists of requests of one
  variant: all are \<^verbatim>\<open>BlobImport\<close>, or all \<^verbatim>\<open>TreeImport\<close>, or all \<^verbatim>\<open>Prefetch\<close>. A
  worker in \<^verbatim>\<open>processRequest\<close> that receives the batch does not leave the loop, and
  hands the whole batch to the processor that the variant of its first request selects,
  which is the processor of the variant of every request of the batch.
\<close>

theorem C5_dequeued_batch_is_homogeneous_and_routed_by_first:
  assumes deq: "dequeue n q = Some (batch, q')" and ne: "batch \<noteq> []"
  shows "(list_all isType_BlobImport batch \<or> list_all isType_TreeImport batch
            \<or> list_all isType_Prefetch batch)
       \<and> workerStep st n InDequeue q = Some (Processing batch, q', [Dequeued batch])
       \<and> workerStep st n (Processing batch) q'' =
           (case routeBatch st batch of
              Inl a \<Rightarrow> Some (Aborted a, q'', [])
            | Inr evs \<Rightarrow> Some (InDequeue, q'', evs))
       \<and> routeBatch st batch =
           (if isType_BlobImport (hd batch) then processBlobImportRequests st batch
            else if isType_TreeImport (hd batch) then processTreeImportRequests st batch
            else processPrefetchRequests st batch)
       \<and> (list_all isType_BlobImport batch \<longrightarrow>
            routeBatch st batch = processBlobImportRequests st batch)
       \<and> (list_all isType_TreeImport batch \<longrightarrow>
            routeBatch st batch = processTreeImportRequests st batch)
       \<and> (list_all isType_Prefetch batch \<longrightarrow>
            routeBatch st batch = processPrefetchRequests st batch)"
proof -
  from ne obtain first rest where b: "batch = first # rest" by (cases batch) auto
  have same: "\<forall>r\<in>set batch. sameVariant first r"
    using dequeue_sameVariant [OF deq ne] b by simp
  have hom: "list_all isType_BlobImport batch \<or> list_all isType_TreeImport batch
      \<or> list_all isType_Prefetch batch"
    using isType_cases [of first] same
    by (auto simp: list_all_iff sameVariant_def)
  have w1: "workerStep st n InDequeue q = Some (Processing batch, q', [Dequeued batch])"
    using deq ne by (simp add: workerStep_def)
  have w2: "workerStep st n (Processing batch) q'' =
           (case routeBatch st batch of
              Inl a \<Rightarrow> Some (Aborted a, q'', [])
            | Inr evs \<Rightarrow> Some (InDequeue, q'', evs))"
    by (simp add: workerStep_def)
  have route: "routeBatch st batch =
           (if isType_BlobImport (hd batch) then processBlobImportRequests st batch
            else if isType_TreeImport (hd batch) then processTreeImportRequests st batch
            else processPrefetchRequests st batch)"
    using isType_cases [of first] by (auto simp: routeBatch_def b)
  have r1: "list_all isType_BlobImport batch \<longrightarrow>
            routeBatch st batch = processBlobImportRequests st batch"
    using route by (simp add: b)
  have r2: "list_all isType_TreeImport batch \<longrightarrow>
            routeBatch st batch = processTreeImportRequests st batch"
    using route isType_exclusive(1) [of first] by (auto simp: b)
  have r3: "list_all isType_Prefetch batch \<longrightarrow>
            routeBatch st batch = processPrefetchRequests st batch"
    using route isType_exclusive(2,3) [of first] by (auto simp: b)
  from hom w1 w2 route r1 r2 r3 show ?thesis by blast
qed

theorem C5_witness:
  "dequeue 3 scenarioQueue
     = Some ([blobRequest 1, blobRequest 2],
             \<lparr>running = True, queued = [treeRequest 3, blobRequest 4]\<rparr>)
   \<and> list_all isType_BlobImport [blobRequest 1, blobRequest 2]
   \<and> routeBatch scenarioStores [blobRequest 1, blobRequest 2]
       = processBlobImportRequests scenarioStores [blobRequest 1, blobRequest 2]"
proof -
  have d: "dequeue 3 scenarioQueue
     = Some ([blobRequest 1, blobRequest 2],
             \<lparr>running = True, queued = [treeRequest 3, blobRequest 4]\<rparr>)"
    by (simp add: dequeue_def scenarioQueue_def sameVariant_def blobRequest_def
        treeRequest_def)
  have n: "[blobRequest 1, blobRequest 2] \<noteq> []" by simp
  have b: "list_all isType_BlobImport [blobRequest 1, blobRequest 2]"
    by (simp add: blobRequest_def)
  from C5_dequeued_batch_is_homogeneous_and_routed_by_first [OF d n, of scenarioStores] b d
  show ?thesis by blast
qed

subsection \<open>After stop\<close>

text \<open>The processors take nothing from the queue.\<close>

lemma dequeuedBatches_append:
  "dequeuedBatches (xs @ ys) = dequeuedBatches xs @ dequeuedBatches ys"
  by (induction xs rule: dequeuedBatches.induct) simp_all

lemma hgcacheStep_noDequeued:
  "hgcacheStep st s = Inr (evs, s') \<Longrightarrow> dequeuedBatches evs = []"
  by (auto simp: hgcacheStep_def Let_def split: option.splits if_splits)

lemma hgcacheLoop_noDequeued:
  "hgcacheLoop st s = Inr (evs, s') \<Longrightarrow> dequeuedBatches evs = []"
proof (induction st s arbitrary: evs s' rule: hgcacheLoop.induct)
  case (1 st s)
  show ?case
  proof (cases "pos s < length (requests s)")
    case False
    with "1.prems" show ?thesis by (simp add: hgcacheLoop.simps [of st s])
  next
    case True
    with "1.prems" obtain e1 s1 e2 where
      step: "hgcacheStep st s = Inr (e1, s1)"
      and loop: "hgcacheLoop st s1 = Inr (e2, s')"
      and evs: "evs = e1 @ e2"
      by (auto simp: hgcacheLoop.simps [of st s] split: sum.splits)
    from "1.IH" [OF True step refl loop] hgcacheStep_noDequeued [OF step] evs
    show ?thesis by (simp add: dequeuedBatches_append)
  qed
qed

lemma fetchLoop_noDequeued:
  "fetchLoop st rs ps = Inr (evs, fs) \<Longrightarrow> dequeuedBatches evs = []"
  by (induction st rs ps arbitrary: evs fs rule: fetchLoop.induct)
     (auto split: sum.splits)

lemma collectAll_noDequeued:
  "collectAll fs = Inr evs \<Longrightarrow> dequeuedBatches evs = []"
  by (induction fs arbitrary: evs)
     (auto simp: dequeuedBatches_append split: sum.splits option.splits)

lemma processTreeImportRequests_noDequeued:
  "processTreeImportRequests st rs = Inr evs \<Longrightarrow> dequeuedBatches evs = []"
  by (induction rs arbitrary: evs) (auto split: sum.splits option.splits)

lemma processPrefetchRequests_noDequeued:
  "processPrefetchRequests st rs = Inr evs \<Longrightarrow> dequeuedBatches evs = []"
  by (induction rs arbitrary: evs) (auto split: sum.splits option.splits)

lemma dequeuedBatches_map_PromiseSet:
  "dequeuedBatches (map (\<lambda>r. PromiseSet r t) rs) = []"
  by (induction rs) simp_all

lemma processBlobImportRequests_noDequeued:
  assumes "processBlobImportRequests st rs = Inr evs"
  shows "dequeuedBatches evs = []"
proof -
  from assms obtain hashes where h: "collectHashes rs = Inr hashes"
    by (auto simp: processBlobImportRequests_def split: sum.splits)
  show ?thesis
  proof (cases "HgProxyHash_getBatch st hashes")
    case (Inl ex)
    with assms h show ?thesis
      by (auto simp: processBlobImportRequests_def dequeuedBatches_map_PromiseSet)
  next
    case (Inr ps)
    with assms h obtain cevs s revs where
      c: "hgcachePass st rs ps = Inr (cevs, s)"
      and i: "hgImporterPass st (requests s) (proxyHashes s) = Inr revs"
      and e: "evs = Call_getBatch hashes # cevs @ revs"
      by (auto simp: processBlobImportRequests_def split: sum.splits)
    from c have "dequeuedBatches cevs = []"
      by (auto simp: hgcachePass_def split: if_splits dest: hgcacheLoop_noDequeued)
    moreover from i obtain a b x where
      "fetchLoop st (requests s) (proxyHashes s) = Inr (a, b)"
      "collectAll b = Inr x" "revs = a @ x"
      by (auto simp: hgImporterPass_def split: if_splits sum.splits)
    then have "dequeuedBatches revs = []"
      using fetchLoop_noDequeued collectAll_noDequeued
      by (simp add: dequeuedBatches_append)
    ultimately show ?thesis using e by (simp add: dequeuedBatches_append)
  qed
qed

lemma routeBatch_noDequeued:
  "routeBatch st rs = Inr evs \<Longrightarrow> dequeuedBatches evs = []"
proof (cases rs)
  case Nil
  then show "routeBatch st rs = Inr evs \<Longrightarrow> dequeuedBatches evs = []"
    by (simp add: routeBatch_def)
next
  case (Cons first rest)
  assume "routeBatch st rs = Inr evs"
  then have "processBlobImportRequests st rs = Inr evs
      \<or> processTreeImportRequests st rs = Inr evs
      \<or> processPrefetchRequests st rs = Inr evs \<or> evs = []"
    unfolding routeBatch_def Cons by (simp split: if_splits)
  then show "dequeuedBatches evs = []"
    using processBlobImportRequests_noDequeued processTreeImportRequests_noDequeued
      processPrefetchRequests_noDequeued by fastforce
qed

lemma dequeue_stopped: "\<not> running q \<Longrightarrow> dequeue m q = Some ([], q)"
  by (simp add: dequeue_def)

lemma workerStep_stopped:
  assumes "\<not> running q" and "workerStep st n w q = Some (w', q', evs)"
  shows "q' = q \<and> dequeuedBatches evs = [] \<and> (w = InDequeue \<longrightarrow> w' = Returned \<and> evs = [])"
  using assms
  by (auto simp: workerStep_def dequeue_stopped
      split: Worker.splits sum.splits dest: routeBatch_noDequeued)

lemma storeStep_stopped:
  assumes "storeStep st n s s'" and "\<not> running (queue s)"
  shows "\<not> running (queue s')
     \<and> dequeuedBatches (events s') = dequeuedBatches (events s)
     \<and> mset (queued (queue s)) \<subseteq># mset (queued (queue s'))"
  using assms
proof (induction rule: storeStep.induct)
  case (worker i s w' q' evs)
  from workerStep_stopped [OF worker.prems worker.hyps(3)]
  show ?case using worker.prems by (simp add: dequeuedBatches_append)
next
  case (client_getBlob s id' prio)
  then show ?case
    by (cases "getBlobLocal st id' (HgProxyHash_new st id')")
       (simp_all add: getBlob_def Let_def makeBlobImportRequest_def running_enqueue
          queued_enqueue dequeuedBatches_append)
next
  case (client_getTree s id' prio)
  then show ?case
    by (simp add: getTree_def Let_def makeTreeImportRequest_def running_enqueue queued_enqueue)
next
  case (client_prefetchBlobs s ids)
  then show ?case
    by (simp add: prefetchBlobs_def Let_def makePrefetchRequest_def running_enqueue
        queued_enqueue)
next
  case (queue_stop s)
  then show ?case by (simp add: stop_def)
qed

lemma storeSteps_stopped:
  assumes "(storeStep st n)\<^sup>*\<^sup>* s s'" and "\<not> running (queue s)"
  shows "\<not> running (queue s')
     \<and> dequeuedBatches (events s') = dequeuedBatches (events s)
     \<and> mset (queued (queue s)) \<subseteq># mset (queued (queue s'))"
  using assms
proof (induction rule: rtranclp_induct)
  case base
  then show ?case by simp
next
  case (step y z)
  from step.IH [OF step.prems] storeStep_stopped [OF step.hyps(2)]
  show ?case by (metis subset_mset.order_trans)
qed

lemma runWorker_Returned: "runWorker st n Returned q tr = (Returned, q, tr)"
  by (simp add: runWorker.simps [of st n Returned] workerStep_def)

lemma runWorker_empty_batch:
  "dequeue n q = Some ([], q') \<Longrightarrow> runWorker st n InDequeue q tr = (Returned, q', tr)"
  by (simp add: runWorker.simps [of st n InDequeue] workerStep_def runWorker_Returned)

lemma runWorker_Processing:
  "routeBatch st b = Inr evs \<Longrightarrow>
   runWorker st n (Processing b) q tr = runWorker st n InDequeue q (tr @ evs)"
  by (simp add: runWorker.simps [of st n "Processing b"] workerStep_def)

lemma runWorker_stopped:
  assumes "\<not> running q" and "canFinish st w"
  shows "\<exists>evs. runWorker st n w q tr = (Returned, q, tr @ evs) \<and> dequeuedBatches evs = []"
proof (cases w)
  case InDequeue
  with assms(1) show ?thesis
    by (simp add: runWorker_empty_batch [OF dequeue_stopped])
next
  case (Processing b)
  with assms(2) obtain evs where r: "routeBatch st b = Inr evs"
    by (auto simp: canFinish_def split: sum.splits)
  then have "runWorker st n w q tr = (Returned, q, tr @ evs)"
    using assms(1) Processing
    by (simp add: runWorker_Processing runWorker_empty_batch [OF dequeue_stopped])
  with routeBatch_noDequeued [OF r] show ?thesis by blast
next
  case Returned
  then show ?thesis by (simp add: runWorker_Returned)
next
  case (Aborted a)
  with assms(2) show ?thesis by (simp add: canFinish_def)
qed

lemma joinThread_stopped:
  assumes "\<not> running (queue s)" and "canFinish st (threads s ! i)"
  shows "\<exists>evs. joinThread st n i s
            = Some (s\<lparr>threads := (threads s)[i := Returned], events := events s @ evs\<rparr>)
          \<and> dequeuedBatches evs = []"
proof -
  from runWorker_stopped [OF assms, of n "events s"] obtain evs where
    "runWorker st n (threads s ! i) (queue s) (events s) = (Returned, queue s, events s @ evs)"
    "dequeuedBatches evs = []"
    by blast
  then show ?thesis by (auto simp: joinThread_def)
qed

lemma canFinish_Returned: "canFinish st Returned"
  by (simp add: canFinish_def)

lemma joinThreads_stopped:
  assumes "\<not> running (queue s)" and "list_all (canFinish st) (threads s)"
    and "\<forall>i\<in>set js. i < length (threads s)"
  shows "\<exists>s'. joinThreads st n js s = Some s'
      \<and> length (threads s') = length (threads s)
      \<and> queue s' = queue s
      \<and> dequeuedBatches (events s') = dequeuedBatches (events s)
      \<and> (\<forall>j<length (threads s).
            threads s' ! j = (if j \<in> set js then Returned else threads s ! j))"
  using assms
proof (induction js arbitrary: s)
  case Nil
  then show ?case by simp
next
  case (Cons i js)
  from Cons.prems have i: "i < length (threads s)" and c: "canFinish st (threads s ! i)"
    by (simp_all add: list_all_length)
  from joinThread_stopped [OF Cons.prems(1) c, of n] obtain evs where
    j: "joinThread st n i s
          = Some (s\<lparr>threads := (threads s)[i := Returned], events := events s @ evs\<rparr>)"
    and e: "dequeuedBatches evs = []"
    by blast
  let ?s1 = "s\<lparr>threads := (threads s)[i := Returned], events := events s @ evs\<rparr>"
  have r1: "\<not> running (queue ?s1)" using Cons.prems(1) by simp
  have c1: "list_all (canFinish st) (threads ?s1)"
    unfolding list_all_length
  proof (intro allI impI)
    fix k assume "k < length (threads ?s1)"
    then show "canFinish st (threads ?s1 ! k)"
      using Cons.prems(2) by (cases "k = i") (simp_all add: list_all_length canFinish_Returned)
  qed
  have b1: "\<forall>i\<in>set js. i < length (threads ?s1)"
    using Cons.prems(3) by simp
  from Cons.IH [OF r1 c1 b1] obtain s' where
    js: "joinThreads st n js ?s1 = Some s'"
    and l: "length (threads s') = length (threads ?s1)"
    and q: "queue s' = queue ?s1"
    and d: "dequeuedBatches (events s') = dequeuedBatches (events ?s1)"
    and t: "\<forall>j<length (threads ?s1).
            threads s' ! j = (if j \<in> set js then Returned else threads ?s1 ! j)"
    by blast
  have "joinThreads st n (i # js) s = Some s'"
    using j js by simp
  moreover have "dequeuedBatches (events s') = dequeuedBatches (events s)"
    using d e by (simp add: dequeuedBatches_append)
  moreover have "\<forall>j<length (threads s).
      threads s' ! j = (if j \<in> set (i # js) then Returned else threads s ! j)"
    using t i by (auto simp: nth_list_update)
  ultimately show ?case using l q by simp
qed

text \<open>
  Claim C6. After \<^verbatim>\<open>stop\<close>, \<^verbatim>\<open>dequeue\<close> returns the empty batch, for every batch
  size. A worker that receives an empty batch returns from \<^verbatim>\<open>processRequest\<close> without
  processing anything. Once the queue of a store has been stopped, then whatever the
  workers and the clients do, in any order and for any number of steps, the queue stays
  stopped, every further \<^verbatim>\<open>dequeue\<close> returns the empty batch, no request leaves the
  queue and no batch is dequeued. The destructor stops the queue and joins every thread:
  it returns with every thread at the end of \<^verbatim>\<open>processRequest\<close>, and no batch has been
  dequeued on the way. The store is assumed alive when the destructor starts: no worker
  has stopped the process, and the batches that workers hold are processed without
  stopping it.
\<close>

theorem C6_no_request_is_dequeued_after_stop:
  assumes alive: "list_all (canFinish st) (threads s)"
  shows "(\<forall>m q. dequeue m (stop q) = Some ([], stop q))
       \<and> (\<forall>q q' tr. dequeue n q = Some ([], q') \<longrightarrow>
             processRequest st n q tr = (Returned, q', tr))
       \<and> (\<forall>s'. (storeStep st n)\<^sup>*\<^sup>* (s\<lparr>queue := stop (queue s)\<rparr>) s' \<longrightarrow>
             \<not> running (queue s')
           \<and> dequeuedBatches (events s') = dequeuedBatches (events s)
           \<and> mset (queued (queue s)) \<subseteq># mset (queued (queue s'))
           \<and> (\<forall>m. dequeue m (queue s') = Some ([], queue s')))
       \<and> (\<exists>s'. destructor st n s = Some s'
           \<and> threads s' = replicate (length (threads s)) Returned
           \<and> queue s' = stop (queue s)
           \<and> dequeuedBatches (events s') = dequeuedBatches (events s))"
proof (intro conjI allI impI)
  fix m q show "dequeue m (stop q) = Some ([], stop q)"
    by (simp add: dequeue_stopped stop_def)
next
  fix q q' tr assume "dequeue n q = Some ([], q')"
  then show "processRequest st n q tr = (Returned, q', tr)"
    by (simp add: processRequest_def runWorker_empty_batch)
next
  fix s' assume steps: "(storeStep st n)\<^sup>*\<^sup>* (s\<lparr>queue := stop (queue s)\<rparr>) s'"
  have "\<not> running (queue (s\<lparr>queue := stop (queue s)\<rparr>))" by (simp add: stop_def)
  from storeSteps_stopped [OF steps this]
  have r: "\<not> running (queue s')"
    and d: "dequeuedBatches (events s') = dequeuedBatches (events s)"
    and m: "mset (queued (queue s)) \<subseteq># mset (queued (queue s'))"
    by (simp_all add: stop_def)
  show "\<not> running (queue s')" by (rule r)
  show "dequeuedBatches (events s') = dequeuedBatches (events s)" by (rule d)
  show "mset (queued (queue s)) \<subseteq># mset (queued (queue s'))" by (rule m)
  fix m' show "dequeue m' (queue s') = Some ([], queue s')"
    using r by (rule dequeue_stopped)
next
  let ?s1 = "s\<lparr>queue := stop (queue s)\<rparr>"
  have r1: "\<not> running (queue ?s1)" by (simp add: stop_def)
  have c1: "list_all (canFinish st) (threads ?s1)" using alive by simp
  have b1: "\<forall>i\<in>set [0..<length (threads s)]. i < length (threads ?s1)" by simp
  from joinThreads_stopped [OF r1 c1 b1, of n] obtain s' where
    js: "joinThreads st n [0..<length (threads s)] ?s1 = Some s'"
    and l: "length (threads s') = length (threads ?s1)"
    and q: "queue s' = queue ?s1"
    and d: "dequeuedBatches (events s') = dequeuedBatches (events ?s1)"
    and t: "\<forall>j<length (threads ?s1).
            threads s' ! j = (if j \<in> set [0..<length (threads s)] then Returned
                              else threads ?s1 ! j)"
    by blast
  have "threads s' = replicate (length (threads s)) Returned"
    using l t by (auto intro: nth_equalityI)
  with js q d
  show "\<exists>s'. destructor st n s = Some s'
           \<and> threads s' = replicate (length (threads s)) Returned
           \<and> queue s' = stop (queue s)
           \<and> dequeuedBatches (events s') = dequeuedBatches (events s)"
    by (simp add: destructor_def)
qed

theorem C6_witness:
  "list_all (canFinish scenarioStores) (threads scenarioStore)
   \<and> (\<exists>s'. destructor scenarioStores 3 scenarioStore = Some s'
         \<and> threads s' = [Returned, Returned]
         \<and> queue s' = stop scenarioQueue
         \<and> dequeuedBatches (events s') = [])"
proof -
  have a: "list_all (canFinish scenarioStores) (threads scenarioStore)"
    by code_simp
  from C6_no_request_is_dequeued_after_stop [OF a, of 3] obtain s' where
    "destructor scenarioStores 3 scenarioStore = Some s'"
    "threads s' = replicate (length (threads scenarioStore)) Returned"
    "queue s' = stop (queue scenarioStore)"
    "dequeuedBatches (events s') = dequeuedBatches (events scenarioStore)"
    by blast
  then have "destructor scenarioStores 3 scenarioStore = Some s'
      \<and> threads s' = [Returned, Returned]
      \<and> queue s' = stop scenarioQueue
      \<and> dequeuedBatches (events s') = []"
    by (simp add: scenarioStore_def newHgQueuedBackingStore_def)
  with a show ?thesis by blast
qed

section \<open>Properties of the FUSE channel\<close>

subsection \<open>The length of a scattered reply\<close>

lemma sumIovecLengths_eq: "sumIovecLengths vs acc = acc + sum_list (map iov_len vs)"
  by (induction vs arbitrary: acc) simp_all

text \<open>
  Claim C8. For every request header, every vector of payload buffers and every device
  that takes the write, the scatter-gather \<^verbatim>\<open>sendReply\<close> performs one gathered write
  of the reply header followed by the buffers; the length field of that header is
  \<^verbatim>\<open>sizeof(fuse_out_header)\<close> plus the sum of the lengths of the buffers, the header
  carries the request's unique id, and the number of bytes of the write, which is what
  \<^verbatim>\<open>writev\<close> returns for it, equals that length. If the device refuses the write, the
  error is returned and nothing is written.
\<close>

theorem C8_scattered_reply_length:
  "(deviceErrno dev = None \<longrightarrow>
      (\<exists>h. sendReply dev req vec
               = Inr (dev\<lparr>deviceWrites := deviceWrites dev @ [IoHeader h # vec]\<rparr>)
         \<and> out_len h = sizeof_fuse_out_header + sum_list (map iov_len vec)
         \<and> out_unique h = in_unique req
         \<and> out_error h = 0
         \<and> sum_list (map iov_len (IoHeader h # vec)) = out_len h
         \<and> writev dev (IoHeader h # vec)
             = Inr (out_len h, dev\<lparr>deviceWrites := deviceWrites dev @ [IoHeader h # vec]\<rparr>)))
   \<and> (\<forall>errno. deviceErrno dev = Some errno \<longrightarrow>
         sendReply dev req vec = Inl (system_error errno))"
proof (intro conjI impI allI)
  let ?h = "\<lparr>out_len = sizeof_fuse_out_header + sum_list (map iov_len vec),
             out_error = 0, out_unique = in_unique req\<rparr>"
  assume "deviceErrno dev = None"
  then have "sendReply dev req vec
               = Inr (dev\<lparr>deviceWrites := deviceWrites dev @ [IoHeader ?h # vec]\<rparr>)
         \<and> out_len ?h = sizeof_fuse_out_header + sum_list (map iov_len vec)
         \<and> out_unique ?h = in_unique req
         \<and> out_error ?h = 0
         \<and> sum_list (map iov_len (IoHeader ?h # vec)) = out_len ?h
         \<and> writev dev (IoHeader ?h # vec)
             = Inr (out_len ?h, dev\<lparr>deviceWrites := deviceWrites dev @ [IoHeader ?h # vec]\<rparr>)"
    by (simp add: sendReply_def sendRawReply_def writev_def sumIovecLengths_eq)
  then show "\<exists>h. sendReply dev req vec
               = Inr (dev\<lparr>deviceWrites := deviceWrites dev @ [IoHeader h # vec]\<rparr>)
         \<and> out_len h = sizeof_fuse_out_header + sum_list (map iov_len vec)
         \<and> out_unique h = in_unique req
         \<and> out_error h = 0
         \<and> sum_list (map iov_len (IoHeader h # vec)) = out_len h
         \<and> writev dev (IoHeader h # vec)
             = Inr (out_len h, dev\<lparr>deviceWrites := deviceWrites dev @ [IoHeader h # vec]\<rparr>)"
    by (rule exI [of _ ?h])
next
  fix errno assume "deviceErrno dev = Some errno"
  then show "sendReply dev req vec = Inl (system_error errno)"
    by (simp add: sendReply_def sendRawReply_def writev_def)
qed

theorem C8_witness:
  "\<exists>h. sendReply \<lparr>deviceWrites = [], deviceErrno = None\<rparr> scenarioRequest
           [IoBytes [1, 2, 3], IoBytes [4, 5]]
         = Inr \<lparr>deviceWrites = [[IoHeader h, IoBytes [1, 2, 3], IoBytes [4, 5]]],
                deviceErrno = None\<rparr>
     \<and> out_len h = 21 \<and> out_unique h = 42"
proof -
  have ok: "deviceErrno \<lparr>deviceWrites = [], deviceErrno = None\<rparr> = None" by simp
  from C8_scattered_reply_length
    [of "\<lparr>deviceWrites = [], deviceErrno = None\<rparr>" scenarioRequest
        "[IoBytes [1, 2, 3], IoBytes [4, 5]]", THEN conjunct1, rule_format, OF ok]
  obtain h where
    sent: "sendReply \<lparr>deviceWrites = [], deviceErrno = None\<rparr> scenarioRequest
             [IoBytes [1, 2, 3], IoBytes [4, 5]]
           = Inr (\<lparr>deviceWrites = [], deviceErrno = None\<rparr>
                   \<lparr>deviceWrites := deviceWrites \<lparr>deviceWrites = [], deviceErrno = None\<rparr>
                      @ [IoHeader h # [IoBytes [1, 2, 3], IoBytes [4, 5]]]\<rparr>)"
    and len: "out_len h
           = sizeof_fuse_out_header + sum_list (map iov_len [IoBytes [1, 2, 3], IoBytes [4, 5]])"
    and uniq: "out_unique h = in_unique scenarioRequest"
    by blast
  have "sendReply \<lparr>deviceWrites = [], deviceErrno = None\<rparr> scenarioRequest
           [IoBytes [1, 2, 3], IoBytes [4, 5]]
         = Inr \<lparr>deviceWrites = [[IoHeader h, IoBytes [1, 2, 3], IoBytes [4, 5]]],
                deviceErrno = None\<rparr>"
    using sent by simp
  moreover have "out_len h = 21"
    using len by (simp add: sizeof_fuse_out_header_def)
  moreover have "out_unique h = 42"
    using uniq by (simp add: scenarioRequest_def)
  ultimately show ?thesis by blast
qed

subsection \<open>The session-complete signal\<close>









end
